theory Spec2Isabelle
  imports Main "HOL-Library.Log_Nat"
begin

section \<open>The frame loop of the VM (src/engine/tw-frame-loop.js)\<close>

text \<open>
  The file defines the display-sync adapter \<^verbatim>\<open>animationFrameWrapper\<close> and the class
  \<^verbatim>\<open>FrameLoop\<close>. Everything the code does goes through the host's timer functions
  (\<^verbatim>\<open>setInterval\<close>, \<^verbatim>\<open>clearInterval\<close>, \<^verbatim>\<open>requestAnimationFrame\<close>,
  \<^verbatim>\<open>cancelAnimationFrame\<close>), so the host is an explicit state: the periodic timers that
  are active, the animation-frame requests that are pending, and the closure environments
  that \<^verbatim>\<open>animationFrameWrapper\<close> allocates. Every function of the source takes the
  state and returns it updated.
\<close>

subsection \<open>JavaScript numbers\<close>

text \<open>
  A JavaScript number is an IEEE 754 double: a finite value (a rational; \<open>Fin 0\<close> is +0),
  the negative zero, the two infinities, or NaN.
\<close>

datatype number = Fin rat | NegZero | PosInf | NegInf | NaN

text \<open>The comparison \<^verbatim>\<open>x === 0\<close> on numbers: both zeros are equal to 0.\<close>

fun is_zero :: "number \<Rightarrow> bool" where
  "is_zero (Fin q) = (q = 0)"
| "is_zero NegZero = True"
| "is_zero _ = False"

text \<open>The comparisons \<^verbatim>\<open>x >= 0\<close> and \<^verbatim>\<open>x > 0\<close>; both are false on NaN.\<close>

fun ge_zero :: "number \<Rightarrow> bool" where
  "ge_zero (Fin q) = (0 \<le> q)"
| "ge_zero NegZero = True"
| "ge_zero PosInf = True"
| "ge_zero _ = False"

fun gt_zero :: "number \<Rightarrow> bool" where
  "gt_zero (Fin q) = (0 < q)"
| "gt_zero PosInf = True"
| "gt_zero _ = False"

text \<open>\<^verbatim>\<open>Number.isFinite\<close>.\<close>

fun is_finite :: "number \<Rightarrow> bool" where
  "is_finite (Fin q) = True"
| "is_finite NegZero = True"
| "is_finite _ = False"

text \<open>
  Rounding of an exact result to the nearest double, ties to even: \<open>flog2 q\<close> is the binary
  exponent of \<open>q > 0\<close> (the integer \<open>e\<close> with \<open>2\<^sup>e \<le> q < 2\<^sup>e\<^sup>+\<^sup>1\<close>), clamped below at the
  exponent \<open>-1022\<close> of the subnormal range; a double has 53 significant bits, so the
  spacing of doubles around \<open>q\<close> is \<open>2\<^sup>e\<^sup>-\<^sup>5\<^sup>2\<close>. A rounded magnitude of \<open>2\<^sup>1\<^sup>0\<^sup>2\<^sup>4\<close> or more
  overflows to an infinity; a rounded magnitude of zero keeps the sign.
\<close>

definition flog2 :: "rat \<Rightarrow> int" where
  "flog2 q =
     (let (a, b) = quotient_of q; d = bitlen a - bitlen b
      in if 2 powi d \<le> q then d else d - 1)"

definition round_half_even :: "rat \<Rightarrow> int" where
  "round_half_even x =
     (let f = \<lfloor>x\<rfloor>; d = x - of_int f
      in if d < 1 / 2 then f
         else if 1 / 2 < d then f + 1
         else if even f then f else f + 1)"

definition round_pos :: "rat \<Rightarrow> number" where
  "round_pos q =
     (let e = max (flog2 q) (- 1022);
          u = 2 powi (e - 52);
          v = of_int (round_half_even (q / u)) * u
      in if 2 ^ 1024 \<le> v then PosInf else Fin v)"

fun negate :: "number \<Rightarrow> number" where
  "negate (Fin q) = (if q = 0 then NegZero else Fin (- q))"
| "negate NegZero = Fin 0"
| "negate PosInf = NegInf"
| "negate NegInf = PosInf"
| "negate NaN = NaN"

definition round64 :: "rat \<Rightarrow> number" where
  "round64 q =
     (if q = 0 then Fin 0
      else if 0 < q then round_pos q
      else negate (round_pos (- q)))"

text \<open>
  The only arithmetic of the source is the division \<^verbatim>\<open>1000 / x\<close>, at three places
  (\<^verbatim>\<open>1000 / 60\<close>, \<^verbatim>\<open>1000 / this.framerate\<close> twice).
\<close>

fun thousand_over :: "number \<Rightarrow> number" where
  "thousand_over (Fin q) = (if q = 0 then PosInf else round64 (1000 / q))"
| "thousand_over NegZero = NegInf"
| "thousand_over PosInf = Fin 0"
| "thousand_over NegInf = NegZero"
| "thousand_over NaN = NaN"

subsection \<open>Function objects\<close>

text \<open>
  The constructor binds two methods of the runtime, \<^verbatim>\<open>runtime._step\<close> and
  \<^verbatim>\<open>runtime._renderInterpolatedPositions\<close>; their bodies are not part of this file.
  \<open>Bound f\<close> is the function object \<^verbatim>\<open>f.bind(runtime)\<close>.
\<close>

datatype target = Step | RenderInterpolatedPositions

datatype callback = Bound target

subsection \<open>The host: timers and animation frames\<close>

text \<open>
  \<^item> \<open>timers\<close>: the active \<^verbatim>\<open>setInterval\<close> timers, oldest first: identifier, callback, delay.
  \<^item> \<open>frames\<close>: the pending animation-frame requests, oldest first: request identifier and
    the closure whose \<^verbatim>\<open>handle\<close> function was submitted. A request is one-shot: the host
    removes it when it runs it. Where \<^verbatim>\<open>requestAnimationFrame\<close> does not exist the source
    uses \<^verbatim>\<open>setTimeout(f, 1000 / 60)\<close> and \<^verbatim>\<open>clearTimeout\<close> instead, which are one-shot
    requests in the same way.
  \<^item> \<open>closures\<close>: the environments allocated by \<^verbatim>\<open>animationFrameWrapper\<close>: the variable
    \<^verbatim>\<open>id\<close> and the parameter \<^verbatim>\<open>callback\<close>. The functions \<^verbatim>\<open>handle\<close> and \<^verbatim>\<open>cancel\<close> of one
    call share one environment, so an environment's reference stands for both.
  \<^item> \<open>calls\<close>: the log of callback invocations, oldest first, each with what triggered it.
  \<^item> the three counters give fresh identifiers, as a browser does.
\<close>

datatype trigger = ByTimer nat | ByFrame nat

record host =
  timers :: "(nat \<times> callback \<times> number) list"
  next_timer :: nat
  frames :: "(nat \<times> nat) list"
  next_frame :: nat
  closures :: "nat \<Rightarrow> (nat \<times> callback) option"
  next_closure :: nat
  calls :: "(trigger \<times> callback) list"

definition empty_host :: host where
  "empty_host =
     \<lparr>timers = [], next_timer = 0, frames = [], next_frame = 0,
      closures = (\<lambda>w. None), next_closure = 0, calls = []\<rparr>"

definition setInterval :: "callback \<Rightarrow> number \<Rightarrow> host \<Rightarrow> nat \<times> host" where
  "setInterval cb delay h =
     (next_timer h,
      h\<lparr>timers := timers h @ [(next_timer h, cb, delay)], next_timer := Suc (next_timer h)\<rparr>)"

text \<open>\<^verbatim>\<open>clearInterval(null)\<close> does nothing, as does clearing a timer that is not active.\<close>

definition clearInterval :: "nat option \<Rightarrow> host \<Rightarrow> host" where
  "clearInterval x h =
     (case x of
        None \<Rightarrow> h
      | Some i \<Rightarrow> h\<lparr>timers := filter (\<lambda>t. fst t \<noteq> i) (timers h)\<rparr>)"

definition p_requestAnimationFrame :: "nat \<Rightarrow> host \<Rightarrow> nat \<times> host" where
  "p_requestAnimationFrame w h =
     (next_frame h, h\<lparr>frames := frames h @ [(next_frame h, w)], next_frame := Suc (next_frame h)\<rparr>)"

definition p_cancelAnimationFrame :: "nat \<Rightarrow> host \<Rightarrow> host" where
  "p_cancelAnimationFrame i h = h\<lparr>frames := filter (\<lambda>f. fst f \<noteq> i) (frames h)\<rparr>"

subsection \<open>animationFrameWrapper\<close>

text \<open>
  \<^verbatim>\<open>
  const animationFrameWrapper = callback => {
      let id;
      const handle = () => {
          id = _requestAnimationFrame(handle);
          callback();
      };
      const cancel = () => _cancelAnimationFrame(id);
      id = _requestAnimationFrame(handle);
      return { cancel };
  };
  \<close>
  The returned object is represented by the reference \<open>w\<close> of the new environment.
\<close>

definition animationFrameWrapper :: "callback \<Rightarrow> host \<Rightarrow> nat \<times> host" where
  "animationFrameWrapper cb h =
     (let w = next_closure h;
          (i, h1) = p_requestAnimationFrame w h
      in (w, h1\<lparr>closures := (closures h1)(w := Some (i, cb)), next_closure := Suc w\<rparr>))"

definition cancel :: "nat \<Rightarrow> host \<Rightarrow> host" where
  "cancel w h =
     (case closures h w of
        None \<Rightarrow> h
      | Some (i, cb) \<Rightarrow> p_cancelAnimationFrame i h)"

text \<open>
  The function \<^verbatim>\<open>handle\<close> of environment \<open>w\<close>: it requests the next frame, stores the new
  request in \<^verbatim>\<open>id\<close>, then calls the callback. What the callback's body does comes after
  \<open>handle w\<close> in a run; the invocation itself is logged.
\<close>

definition handle :: "nat \<Rightarrow> host \<Rightarrow> host" where
  "handle w h =
     (case closures h w of
        None \<Rightarrow> h
      | Some (i, cb) \<Rightarrow>
          (let (i', h1) = p_requestAnimationFrame w h;
               h2 = h1\<lparr>closures := (closures h1)(w := Some (i', cb))\<rparr>
           in h2\<lparr>calls := calls h2 @ [(ByFrame w, cb)]\<rparr>))"

text \<open>
  The host's two events. \<open>frame r\<close>: the host runs the pending request \<open>r\<close> (and removes
  it first: a request runs once); a request that is not pending is never run.
  \<open>tick i\<close>: the active timer \<open>i\<close> fires and stays active.
\<close>

definition frame :: "nat \<Rightarrow> host \<Rightarrow> host" where
  "frame r h =
     (case map_of (frames h) r of
        None \<Rightarrow> h
      | Some w \<Rightarrow> handle w (h\<lparr>frames := filter (\<lambda>f. fst f \<noteq> r) (frames h)\<rparr>))"

definition tick :: "nat \<Rightarrow> host \<Rightarrow> host" where
  "tick i h =
     (case map_of (timers h) i of
        None \<Rightarrow> h
      | Some (cb, delay) \<Rightarrow> h\<lparr>calls := calls h @ [(ByTimer i, cb)]\<rparr>)"

text \<open>
  One refresh cycle of the display: the host runs the requests that were pending when the
  cycle began, in order; a request cancelled in the meantime is skipped, and a request made
  during the cycle waits for the next one.
\<close>

definition refresh :: "host \<Rightarrow> host" where
  "refresh h = fold frame (map fst (frames h)) h"

subsection \<open>class FrameLoop\<close>

text \<open>
  The runtime object, as far as this file touches it: the field \<^verbatim>\<open>currentStepTime\<close>.
  The fields \<^verbatim>\<open>_stepInterval\<close>, \<^verbatim>\<open>_interpolationAnimation\<close>, \<^verbatim>\<open>_stepAnimation\<close> and the
  function \<^verbatim>\<open>_restart\<close> are written with the prefix \<open>p_\<close> for the leading underscore;
  \<open>None\<close> is \<^verbatim>\<open>null\<close>.
\<close>

record Runtime =
  currentStepTime :: number

record FrameLoop =
  runtime :: Runtime
  running :: bool
  framerate :: number
  interpolation :: bool
  stepCallback :: callback
  interpolationCallback :: callback
  p_stepInterval :: "nat option"
  p_interpolationAnimation :: "nat option"
  p_stepAnimation :: "nat option"

definition start :: "FrameLoop \<Rightarrow> host \<Rightarrow> FrameLoop \<times> host" where
  "start this h =
     (let this1 = this\<lparr>running := True\<rparr>
      in if is_zero (framerate this1) then
           (let (w, h1) = animationFrameWrapper (stepCallback this1) h
            in (this1\<lparr>p_stepAnimation := Some w\<rparr>, h1))
         else
           (let (this2, h2) =
                  (if interpolation this1 then
                     (let (w, h1) = animationFrameWrapper (interpolationCallback this1) h
                      in (this1\<lparr>p_interpolationAnimation := Some w\<rparr>, h1))
                   else (this1, h));
                (i, h3) = setInterval (stepCallback this2) (thousand_over (framerate this2)) h2
            in (this2\<lparr>p_stepInterval := Some i\<rparr>, h3)))"

definition stop :: "FrameLoop \<Rightarrow> host \<Rightarrow> FrameLoop \<times> host" where
  "stop this h =
     (let this1 = this\<lparr>running := False\<rparr>;
          h1 = clearInterval (p_stepInterval this1) h;
          h2 = (case p_interpolationAnimation this1 of None \<Rightarrow> h1 | Some w \<Rightarrow> cancel w h1);
          h3 = (case p_stepAnimation this1 of None \<Rightarrow> h2 | Some w \<Rightarrow> cancel w h2)
      in (this1\<lparr>p_interpolationAnimation := None, p_stepAnimation := None\<rparr>, h3))"

definition p_restart :: "FrameLoop \<Rightarrow> host \<Rightarrow> FrameLoop \<times> host" where
  "p_restart this h =
     (if running this then (let (this1, h1) = stop this h in start this1 h1)
      else (this, h))"

definition setFramerate :: "number \<Rightarrow> FrameLoop \<Rightarrow> host \<Rightarrow> FrameLoop \<times> host" where
  "setFramerate fps this h =
     (let this1 = this\<lparr>framerate := fps\<rparr>;
          this2 =
            (if is_zero fps then
               this1\<lparr>runtime := (runtime this1)\<lparr>currentStepTime := thousand_over (Fin 60)\<rparr>\<rparr>
             else
               this1\<lparr>runtime := (runtime this1)\<lparr>currentStepTime := thousand_over (framerate this1)\<rparr>\<rparr>)
      in p_restart this2 h)"

definition setInterpolation :: "bool \<Rightarrow> FrameLoop \<Rightarrow> host \<Rightarrow> FrameLoop \<times> host" where
  "setInterpolation b this h = p_restart (this\<lparr>interpolation := b\<rparr>) h"

text \<open>
  The constructor assigns the fields one after the other. A field that is not assigned yet
  is \<^verbatim>\<open>undefined\<close> in JavaScript; here the object starts with placeholders (\<open>NaN\<close>,
  \<open>False\<close>, \<open>None\<close>, and the callbacks), none of which is read before it is assigned:
  \<^verbatim>\<open>setFramerate\<close> and \<^verbatim>\<open>setInterpolation\<close> read \<^verbatim>\<open>running\<close> only, which is false.
\<close>

definition constructor :: "Runtime \<Rightarrow> host \<Rightarrow> FrameLoop \<times> host" where
  "constructor rt h =
     (let this0 =
            \<lparr>runtime = rt, running = False, framerate = NaN, interpolation = False,
             stepCallback = Bound Step, interpolationCallback = Bound RenderInterpolatedPositions,
             p_stepInterval = None, p_interpolationAnimation = None, p_stepAnimation = None\<rparr>;
          (this1, h1) = setFramerate (Fin 60) this0 h;
          (this2, h2) = setInterpolation False this1 h1
      in (this2\<lparr>stepCallback := Bound Step,
                 interpolationCallback := Bound RenderInterpolatedPositions,
                 p_stepInterval := None, p_interpolationAnimation := None,
                 p_stepAnimation := None\<rparr>, h2))"

subsection \<open>Runs\<close>

text \<open>
  JavaScript runs one thing at a time: a run of the program is a sequence of calls of the
  four public methods and of host events. The body of a callback can reach the frame loop
  through its methods only, so the calls a callback makes are the calls that follow its
  \<open>Tick\<close> or \<open>Frame\<close> event in the run.
\<close>

datatype event =
  SetFramerate number | SetInterpolation bool | Start | Stop | Tick nat | Frame nat

fun exec :: "event \<Rightarrow> FrameLoop \<times> host \<Rightarrow> FrameLoop \<times> host" where
  "exec (SetFramerate fps) (this, h) = setFramerate fps this h"
| "exec (SetInterpolation b) (this, h) = setInterpolation b this h"
| "exec Start (this, h) = start this h"
| "exec Stop (this, h) = stop this h"
| "exec (Tick i) (this, h) = (this, tick i h)"
| "exec (Frame r) (this, h) = (this, frame r h)"

definition run :: "event list \<Rightarrow> FrameLoop \<times> host \<Rightarrow> FrameLoop \<times> host" where
  "run es s = fold exec es s"

text \<open>The scheduling sources that are live in the host, timers first.\<close>

datatype source = PeriodicTimer number callback | DisplaySync callback

fun callback_of :: "source \<Rightarrow> callback" where
  "callback_of (PeriodicTimer delay cb) = cb"
| "callback_of (DisplaySync cb) = cb"

definition sources :: "host \<Rightarrow> source list" where
  "sources h =
     map (\<lambda>(i, cb, delay). PeriodicTimer delay cb) (timers h) @
     concat (map (\<lambda>(r, w). case closures h w of None \<Rightarrow> [] | Some (i, cb) \<Rightarrow> [DisplaySync cb])
               (frames h))"

subsection \<open>Well-formed states\<close>

text \<open>
  \<open>fresh\<close>: the identifiers in use are below the host's counters, and no two pending
  requests share an identifier.
\<close>

definition fresh :: "host \<Rightarrow> bool" where
  "fresh h =
     (list_all (\<lambda>t. fst t < next_timer h) (timers h) \<and>
      list_all (\<lambda>f. fst f < next_frame h \<and> snd f < next_closure h) (frames h) \<and>
      distinct (map fst (frames h)))"

text \<open>
  \<open>consistent\<close>: the callbacks are the two function objects bound by the constructor, and
  the host holds the sources of the frame loop's current mode and no other: none when it
  is stopped; when it runs at framerate 0, the display-sync source for the step callback,
  held in \<^verbatim>\<open>_stepAnimation\<close>; otherwise the periodic timer held in \<^verbatim>\<open>_stepInterval\<close> and,
  with interpolation, the display-sync source held in \<^verbatim>\<open>_interpolationAnimation\<close>.
\<close>

definition consistent :: "FrameLoop \<times> host \<Rightarrow> bool" where
  "consistent s =
     (let this = fst s; h = snd s in
      stepCallback this = Bound Step \<and>
      interpolationCallback this = Bound RenderInterpolatedPositions \<and>
      fresh h \<and>
      (if running this then
         (if is_zero (framerate this) then
            timers h = [] \<and> p_interpolationAnimation this = None \<and>
            (case p_stepAnimation this of
               None \<Rightarrow> False
             | Some w \<Rightarrow>
                 (case closures h w of
                    None \<Rightarrow> False
                  | Some (r, cb) \<Rightarrow> frames h = [(r, w)] \<and> cb = stepCallback this))
          else
            p_stepAnimation this = None \<and>
            (case p_stepInterval this of
               None \<Rightarrow> False
             | Some i \<Rightarrow> timers h = [(i, stepCallback this, thousand_over (framerate this))]) \<and>
            (if interpolation this then
               (case p_interpolationAnimation this of
                  None \<Rightarrow> False
                | Some w \<Rightarrow>
                    (case closures h w of
                       None \<Rightarrow> False
                     | Some (r, cb) \<Rightarrow> frames h = [(r, w)] \<and> cb = interpolationCallback this))
             else p_interpolationAnimation this = None \<and> frames h = []))
       else
         timers h = [] \<and> frames h = [] \<and>
         p_interpolationAnimation this = None \<and> p_stepAnimation this = None))"

text \<open>
  A run is disciplined when \<^verbatim>\<open>start()\<close> is called in the stopped state only.
\<close>

fun ok :: "event \<Rightarrow> FrameLoop \<times> host \<Rightarrow> bool" where
  "ok Start s = (\<not> running (fst s))"
| "ok _ s = True"

fun disciplined :: "event list \<Rightarrow> FrameLoop \<times> host \<Rightarrow> bool" where
  "disciplined [] s = True"
| "disciplined (e # es) s = (ok e s \<and> disciplined es (exec e s))"

text \<open>The sources that the mode table of \<^verbatim>\<open>start()\<close> prescribes for a configuration.\<close>

definition mode_table :: "FrameLoop \<Rightarrow> source list" where
  "mode_table this =
     (if is_zero (framerate this) then [DisplaySync (stepCallback this)]
      else if interpolation this then
        [PeriodicTimer (thousand_over (framerate this)) (stepCallback this),
         DisplaySync (interpolationCallback this)]
      else [PeriodicTimer (thousand_over (framerate this)) (stepCallback this)])"

text \<open>A runtime object and the frame loop constructed for it on a host with no timers.\<close>

definition example_runtime :: Runtime where
  "example_runtime = \<lparr>currentStepTime = NaN\<rparr>"

definition constructed :: "FrameLoop \<times> host" where
  "constructed = constructor example_runtime empty_host"

text \<open>
  The state in which \<^verbatim>\<open>setFramerate(fps)\<close> calls \<^verbatim>\<open>_restart()\<close>: the rate and the tick
  interval are stored.
\<close>

definition with_framerate :: "number \<Rightarrow> FrameLoop \<Rightarrow> FrameLoop" where
  "with_framerate fps this =
     this\<lparr>framerate := fps,
          runtime := (runtime this)\<lparr>currentStepTime :=
            (if is_zero fps then thousand_over (Fin 60) else thousand_over fps)\<rparr>\<rparr>"

text \<open>The live sources that call the step callback, and those that call the interpolation callback.\<close>

definition step_sources :: "FrameLoop \<times> host \<Rightarrow> source list" where
  "step_sources s = filter (\<lambda>x. callback_of x = stepCallback (fst s)) (sources (snd s))"

definition interpolation_sources :: "FrameLoop \<times> host \<Rightarrow> source list" where
  "interpolation_sources s =
     filter (\<lambda>x. callback_of x = interpolationCallback (fst s)) (sources (snd s))"

text \<open>The rates passed to \<^verbatim>\<open>setFramerate\<close> in a run meet its precondition \<^verbatim>\<open>rate >= 0\<close>.\<close>

fun rate_ok :: "event \<Rightarrow> bool" where
  "rate_ok (SetFramerate fps) = ge_zero fps"
| "rate_ok _ = True"

subsection \<open>Subscriptions of one closure\<close>

text \<open>
  For the closure \<open>w\<close> of one \<^verbatim>\<open>animationFrameWrapper\<close> call: the pending requests that
  will run its \<^verbatim>\<open>handle\<close>, the number of times its callback has been invoked, and the
  state in which it is subscribed: one request is pending, and it is the one stored in
  the variable \<^verbatim>\<open>id\<close>.
\<close>

definition pending :: "nat \<Rightarrow> host \<Rightarrow> nat list" where
  "pending w h = map fst (filter (\<lambda>f. snd f = w) (frames h))"

definition invocations :: "nat \<Rightarrow> host \<Rightarrow> nat" where
  "invocations w h = length (filter (\<lambda>c. fst c = ByFrame w) (calls h))"

definition armed :: "nat \<Rightarrow> callback \<Rightarrow> host \<Rightarrow> bool" where
  "armed w cb h =
     (case closures h w of
        None \<Rightarrow> False
      | Some (r, cb') \<Rightarrow> cb' = cb \<and> pending w h = [r])"

section \<open>Properties\<close>

text \<open>The double \<^verbatim>\<open>1000 / 60\<close> is 16.666666666666668, that is 4691249611844267 / 2^48.\<close>

lemma thousand_over_60: "thousand_over (Fin 60) = Fin (4691249611844267 / 281474976710656)"
  by code_simp

text \<open>
  C10. A newly constructed FrameLoop is stopped, with framerate 60 and interpolation
  disabled, the three handle fields null, the runtime's currentStepTime set to 1000/60
  (the double 16.666666666666668), and the host untouched: construction creates no
  subscription.
\<close>

theorem C10_constructor:
  "constructor rt h =
     (\<lparr>runtime = rt\<lparr>currentStepTime := thousand_over (Fin 60)\<rparr>, running = False,
       framerate = Fin 60, interpolation = False,
       stepCallback = Bound Step, interpolationCallback = Bound RenderInterpolatedPositions,
       p_stepInterval = None, p_interpolationAnimation = None, p_stepAnimation = None\<rparr>, h) \<and>
   currentStepTime (runtime (fst (constructor rt h))) = Fin (4691249611844267 / 281474976710656) \<and>
   sources (snd (constructor rt h)) = sources h"
proof -
  have c: "constructor rt h =
     (\<lparr>runtime = rt\<lparr>currentStepTime := thousand_over (Fin 60)\<rparr>, running = False,
       framerate = Fin 60, interpolation = False,
       stepCallback = Bound Step, interpolationCallback = Bound RenderInterpolatedPositions,
       p_stepInterval = None, p_interpolationAnimation = None, p_stepAnimation = None\<rparr>, h)"
    by (simp add: constructor_def setFramerate_def setInterpolation_def p_restart_def)
  have "currentStepTime (runtime (fst (constructor rt h))) = thousand_over (Fin 60)"
    unfolding c by simp
  then have t: "currentStepTime (runtime (fst (constructor rt h))) =
      Fin (4691249611844267 / 281474976710656)"
    by (simp only: thousand_over_60)
  have s: "sources (snd (constructor rt h)) = sources h"
    unfolding c by simp
  from c t s show ?thesis by (simp only: simp_thms)
qed

subsection \<open>The invariant of disciplined runs\<close>

lemma constructor_result:
  "constructor rt h =
     (\<lparr>runtime = rt\<lparr>currentStepTime := thousand_over (Fin 60)\<rparr>, running = False,
       framerate = Fin 60, interpolation = False,
       stepCallback = Bound Step, interpolationCallback = Bound RenderInterpolatedPositions,
       p_stepInterval = None, p_interpolationAnimation = None, p_stepAnimation = None\<rparr>, h)"
  by (simp add: constructor_def setFramerate_def setInterpolation_def p_restart_def)

lemma start_zero:
  "is_zero (framerate this) \<Longrightarrow>
   start this h =
     (this\<lparr>running := True, p_stepAnimation := Some (next_closure h)\<rparr>,
      h\<lparr>frames := frames h @ [(next_frame h, next_closure h)],
        next_frame := Suc (next_frame h),
        closures := (closures h)(next_closure h := Some (next_frame h, stepCallback this)),
        next_closure := Suc (next_closure h)\<rparr>)"
  by (simp add: start_def animationFrameWrapper_def p_requestAnimationFrame_def Let_def)

lemma start_timer:
  "\<not> is_zero (framerate this) \<Longrightarrow> \<not> interpolation this \<Longrightarrow>
   start this h =
     (this\<lparr>running := True, p_stepInterval := Some (next_timer h)\<rparr>,
      h\<lparr>timers := timers h @ [(next_timer h, stepCallback this, thousand_over (framerate this))],
        next_timer := Suc (next_timer h)\<rparr>)"
  by (simp add: start_def setInterval_def Let_def)

lemma start_interpolated:
  "\<not> is_zero (framerate this) \<Longrightarrow> interpolation this \<Longrightarrow>
   start this h =
     (this\<lparr>running := True, p_interpolationAnimation := Some (next_closure h),
           p_stepInterval := Some (next_timer h)\<rparr>,
      h\<lparr>frames := frames h @ [(next_frame h, next_closure h)],
        next_frame := Suc (next_frame h),
        closures := (closures h)(next_closure h := Some (next_frame h, interpolationCallback this)),
        next_closure := Suc (next_closure h),
        timers := timers h @ [(next_timer h, stepCallback this, thousand_over (framerate this))],
        next_timer := Suc (next_timer h)\<rparr>)"
  by (simp add: start_def setInterval_def animationFrameWrapper_def p_requestAnimationFrame_def Let_def)

lemmas start_modes = start_zero start_timer start_interpolated

lemma consistent_start: "consistent (this, h) \<Longrightarrow> \<not> running this \<Longrightarrow> consistent (start this h)"
  by (cases "is_zero (framerate this)"; cases "interpolation this")
     (simp_all add: start_modes consistent_def fresh_def Let_def)

lemma stop_consistent: "consistent (this, h) \<Longrightarrow>
   stop this h = (this\<lparr>running := False, p_interpolationAnimation := None, p_stepAnimation := None\<rparr>,
     h\<lparr>timers := [], frames := []\<rparr>)"
  apply (cases "running this"; cases "is_zero (framerate this)"; cases "interpolation this")
  apply (auto simp add: Let_def consistent_def stop_def clearInterval_def cancel_def p_cancelAnimationFrame_def split: option.splits)
  done


lemma consistent_stop: "consistent (this, h) \<Longrightarrow> consistent (stop this h)"
  by (simp add: stop_consistent) (simp add: consistent_def fresh_def Let_def)

lemma stop_framerate:
  "stop (this\<lparr>framerate := f\<rparr>) h = ((fst (stop this h))\<lparr>framerate := f\<rparr>, snd (stop this h))"
  by (simp add: stop_def Let_def split: option.splits)

lemma stop_runtime:
  "stop (this\<lparr>runtime := rt\<rparr>) h = ((fst (stop this h))\<lparr>runtime := rt\<rparr>, snd (stop this h))"
  by (simp add: stop_def Let_def split: option.splits)

lemma stop_interpolation:
  "stop (this\<lparr>interpolation := b\<rparr>) h =
     ((fst (stop this h))\<lparr>interpolation := b\<rparr>, snd (stop this h))"
  by (simp add: stop_def Let_def split: option.splits)

lemma consistent_setFramerate:
  assumes "consistent (this, h)"
  shows "consistent (setFramerate fps this h)"
proof (cases "running this")
  case False
  with assms show ?thesis
    by (simp add: setFramerate_def p_restart_def Let_def consistent_def)
next
  case True
  let ?rt = "(runtime this)\<lparr>currentStepTime :=
      (if is_zero fps then thousand_over (Fin 60) else thousand_over fps)\<rparr>"
  let ?s = "stop this h"
  have c: "consistent ?s" "\<not> running (fst ?s)"
    using assms consistent_stop [OF assms] by (simp_all add: stop_def Let_def)
  have "consistent ((fst ?s)\<lparr>framerate := fps, runtime := ?rt\<rparr>, snd ?s)"
    using c by (simp add: consistent_def Let_def)
  then have "consistent (start ((fst ?s)\<lparr>framerate := fps, runtime := ?rt\<rparr>) (snd ?s))"
    using c(2) by (intro consistent_start) simp_all
  moreover have "setFramerate fps this h = start ((fst ?s)\<lparr>framerate := fps, runtime := ?rt\<rparr>) (snd ?s)"
    using True by (simp add: setFramerate_def p_restart_def Let_def stop_framerate stop_runtime)
  ultimately show ?thesis by simp
qed

lemma consistent_setInterpolation:
  assumes "consistent (this, h)"
  shows "consistent (setInterpolation b this h)"
proof (cases "running this")
  case False
  with assms show ?thesis
    by (simp add: setInterpolation_def p_restart_def Let_def consistent_def)
next
  case True
  let ?s = "stop this h"
  have c: "consistent ?s" "\<not> running (fst ?s)"
    using assms consistent_stop [OF assms] by (simp_all add: stop_def Let_def)
  have "consistent ((fst ?s)\<lparr>interpolation := b\<rparr>, snd ?s)"
    using c by (simp add: consistent_def Let_def)
  then have "consistent (start ((fst ?s)\<lparr>interpolation := b\<rparr>) (snd ?s))"
    using c(2) by (intro consistent_start) simp_all
  moreover have "setInterpolation b this h = start ((fst ?s)\<lparr>interpolation := b\<rparr>) (snd ?s)"
    using True by (simp add: setInterpolation_def p_restart_def Let_def stop_interpolation)
  ultimately show ?thesis by simp
qed

lemma consistent_calls [simp]: "consistent (this, h\<lparr>calls := c\<rparr>) = consistent (this, h)"
  by (simp add: consistent_def fresh_def Let_def cong: option.case_cong)

lemma consistent_tick: "consistent (this, h) \<Longrightarrow> consistent (this, tick i h)"
  by (cases "map_of (timers h) i") (auto simp add: tick_def)

lemma frame_other: "map_of (frames h) r = None \<Longrightarrow> frame r h = h"
  by (simp add: frame_def)

lemma frame_single:
  "frames h = [(r, w)] \<Longrightarrow> closures h w = Some (r, cb) \<Longrightarrow>
   frame r h =
     h\<lparr>frames := [(next_frame h, w)], next_frame := Suc (next_frame h),
       closures := (closures h)(w := Some (next_frame h, cb)),
       calls := calls h @ [(ByFrame w, cb)]\<rparr>"
  by (simp add: frame_def handle_def p_requestAnimationFrame_def Let_def)

lemma consistent_frame:
  assumes "consistent (this, h)"
  shows "consistent (this, frame r h)"
proof (cases "map_of (frames h) r")
  case None
  with assms show ?thesis by (simp add: frame_other)
next
  case (Some w)
  then have ne: "frames h \<noteq> []" by auto
  with assms have run: "running this"
    by (auto simp add: consistent_def Let_def split: if_splits)
  show ?thesis
  proof (cases "is_zero (framerate this)")
    case True
    with assms run obtain r0 w0 where
      f: "frames h = [(r0, w0)]" "closures h w0 = Some (r0, stepCallback this)"
        "p_stepAnimation this = Some w0"
      by (auto simp add: consistent_def Let_def split: option.splits)
    with Some have "r = r0" by (simp split: if_splits)
    with f assms run True show ?thesis
      by (simp add: frame_single [OF f(1,2)] consistent_def fresh_def Let_def)
  next
    case False
    with assms run ne obtain r0 w0 where
      f: "frames h = [(r0, w0)]" "closures h w0 = Some (r0, interpolationCallback this)"
        "p_interpolationAnimation this = Some w0" "interpolation this"
      by (auto simp add: consistent_def Let_def split: option.splits if_splits)
    with Some have "r = r0" by (simp split: if_splits)
    with f assms run False show ?thesis
      by (simp add: frame_single [OF f(1,2)] consistent_def fresh_def Let_def
          split: option.splits)
  qed
qed

lemma consistent_exec: "consistent s \<Longrightarrow> ok e s \<Longrightarrow> consistent (exec e s)"
  by (cases s; cases e)
     (simp_all add: consistent_start consistent_stop consistent_setFramerate
        consistent_setInterpolation consistent_tick consistent_frame)

lemma consistent_run: "consistent s \<Longrightarrow> disciplined es s \<Longrightarrow> consistent (run es s)"
  by (induction es arbitrary: s) (simp_all add: run_def consistent_exec)

lemma consistent_constructor:
  "fresh h \<Longrightarrow> timers h = [] \<Longrightarrow> frames h = [] \<Longrightarrow> consistent (constructor rt h)"
  by (simp add: constructor_result consistent_def Let_def)

subsection \<open>Sources of a consistent state\<close>

lemma sources_stopped: "consistent (this, h) \<Longrightarrow> \<not> running this \<Longrightarrow> sources h = []"
  by (simp add: consistent_def sources_def Let_def)

lemma sources_running: "consistent (this, h) \<Longrightarrow> running this \<Longrightarrow> sources h = mode_table this"
  by (cases "is_zero (framerate this)"; cases "interpolation this")
     (auto simp add: consistent_def sources_def mode_table_def Let_def split: option.splits)

lemma start_fields:
  "running (fst (start this h))"
  "framerate (fst (start this h)) = framerate this"
  "interpolation (fst (start this h)) = interpolation this"
  "runtime (fst (start this h)) = runtime this"
  "stepCallback (fst (start this h)) = stepCallback this"
  "interpolationCallback (fst (start this h)) = interpolationCallback this"
  by (simp_all add: start_def Let_def split: prod.splits)

lemma stop_fields:
  "\<not> running (fst (stop this h))"
  "framerate (fst (stop this h)) = framerate this"
  "interpolation (fst (stop this h)) = interpolation this"
  "runtime (fst (stop this h)) = runtime this"
  "stepCallback (fst (stop this h)) = stepCallback this"
  "interpolationCallback (fst (stop this h)) = interpolationCallback this"
  "p_stepInterval (fst (stop this h)) = p_stepInterval this"
  "p_interpolationAnimation (fst (stop this h)) = None"
  "p_stepAnimation (fst (stop this h)) = None"
  by (simp_all add: stop_def Let_def)

lemma mode_table_start: "mode_table (fst (start this h)) = mode_table this"
  by (simp add: mode_table_def start_fields)

text \<open>
  C1. A call of start() in the stopped state creates the sources of the mode table: at
  framerate 0 one display-sync source with the step callback and nothing else; at another
  framerate one periodic timer with delay 1000/framerate and the step callback, and, with
  interpolation, one display-sync source with the interpolation callback. (The stopped
  state has no source, so the sources after the call are the sources created.)
\<close>

theorem C1_start_mode_table:
  assumes "consistent (this, h)" and "\<not> running this"
  shows "running (fst (start this h)) \<and>
         sources (snd (start this h)) =
           (if is_zero (framerate this) then [DisplaySync (Bound Step)]
            else if interpolation this then
              [PeriodicTimer (thousand_over (framerate this)) (Bound Step),
               DisplaySync (Bound RenderInterpolatedPositions)]
            else [PeriodicTimer (thousand_over (framerate this)) (Bound Step)])"
proof -
  have c: "consistent (start this h)"
    using assms by (rule consistent_start)
  have cb: "stepCallback this = Bound Step"
    "interpolationCallback this = Bound RenderInterpolatedPositions"
    using assms(1) by (simp_all add: consistent_def Let_def)
  have "sources (snd (start this h)) = mode_table (fst (start this h))"
    using c by (intro sources_running) (simp_all add: start_fields)
  then show ?thesis
    by (simp add: mode_table_start start_fields) (simp add: mode_table_def cb)
qed

lemma consistent_constructed: "consistent constructed"
  unfolding constructed_def
  by (rule consistent_constructor) (simp_all add: empty_host_def fresh_def)

lemma run_Cons: "run (e # es) s = run es (exec e s)"
  by (simp add: run_def)

lemma run_Nil: "run [] s = s"
  by (simp add: run_def)

lemma constructed_eq:
  "constructed =
   (\<lparr>runtime = \<lparr>currentStepTime = thousand_over (Fin 60)\<rparr>, running = False,
       framerate = Fin 60, interpolation = False,
       stepCallback = Bound Step, interpolationCallback = Bound RenderInterpolatedPositions,
       p_stepInterval = None, p_interpolationAnimation = None, p_stepAnimation = None\<rparr>, empty_host)"
  by (simp add: constructed_def constructor_result example_runtime_def)

lemmas eval_simps = run_Cons run_Nil constructed_eq setFramerate_def setInterpolation_def p_restart_def
  start_def stop_def Let_def setInterval_def clearInterval_def animationFrameWrapper_def cancel_def
  p_requestAnimationFrame_def p_cancelAnimationFrame_def empty_host_def sources_def

theorem C1_start_mode_table_witness:
  "consistent (run [SetFramerate (Fin 30), SetInterpolation True] constructed) \<and>
   \<not> running (fst (run [SetFramerate (Fin 30), SetInterpolation True] constructed)) \<and>
   sources (snd (run [SetFramerate (Fin 30), SetInterpolation True, Start] constructed)) =
     [PeriodicTimer (thousand_over (Fin 30)) (Bound Step),
      DisplaySync (Bound RenderInterpolatedPositions)]"
proof -
  obtain t h where s: "run [SetFramerate (Fin 30), SetInterpolation True] constructed = (t, h)"
    by (cases "run [SetFramerate (Fin 30), SetInterpolation True] constructed")
  have c: "consistent (t, h)"
    unfolding s [symmetric] by (rule consistent_run [OF consistent_constructed]) simp
  have r: "\<not> running t" "framerate t = Fin 30" "interpolation t"
    using s by (auto simp add: eval_simps)
  have "run [SetFramerate (Fin 30), SetInterpolation True, Start] constructed = start t h"
    using s by (simp add: run_def)
  with C1_start_mode_table [OF c r(1)] c r s show ?thesis
    by simp
qed

subsection \<open>Reconfiguration\<close>

lemma setFramerate_eq:
  "setFramerate fps this h =
     (if running this
      then start (fst (stop (with_framerate fps this) h)) (snd (stop (with_framerate fps this) h))
      else (with_framerate fps this, h))"
  by (simp add: setFramerate_def p_restart_def with_framerate_def Let_def split: prod.splits)

lemma setInterpolation_eq:
  "setInterpolation b this h =
     (if running this
      then start (fst (stop (this\<lparr>interpolation := b\<rparr>) h)) (snd (stop (this\<lparr>interpolation := b\<rparr>) h))
      else (this\<lparr>interpolation := b\<rparr>, h))"
  by (simp add: setInterpolation_def p_restart_def Let_def split: prod.splits)

lemma with_framerate_fields:
  "framerate (with_framerate fps this) = fps"
  "currentStepTime (runtime (with_framerate fps this)) =
     (if is_zero fps then thousand_over (Fin 60) else thousand_over fps)"
  "running (with_framerate fps this) = running this"
  "interpolation (with_framerate fps this) = interpolation this"
  "stepCallback (with_framerate fps this) = stepCallback this"
  "interpolationCallback (with_framerate fps this) = interpolationCallback this"
  by (simp_all add: with_framerate_def)

lemma stop_with_framerate:
  "stop (with_framerate fps this) h = (with_framerate fps (fst (stop this h)), snd (stop this h))"
  by (simp add: with_framerate_def stop_framerate stop_runtime stop_fields)

lemma consistent_stopped_with_framerate:
  "consistent (this, h) \<Longrightarrow> \<not> running this \<Longrightarrow> consistent (with_framerate fps this, h)"
  by (simp add: consistent_def with_framerate_def Let_def)

lemma consistent_stopped_interpolation:
  "consistent (this, h) \<Longrightarrow> \<not> running this \<Longrightarrow> consistent (this\<lparr>interpolation := b\<rparr>, h)"
  by (simp add: consistent_def Let_def)

lemma stop_sources_with_framerate:
  assumes "consistent (this, h)"
  shows "consistent (stop (with_framerate fps this) h)"
    and "sources (snd (stop (with_framerate fps this) h)) = []"
proof -
  have c: "consistent (stop this h)" using assms by (rule consistent_stop)
  then have "consistent (fst (stop this h), snd (stop this h))" by simp
  then show 1: "consistent (stop (with_framerate fps this) h)"
    unfolding stop_with_framerate
    by (rule consistent_stopped_with_framerate) (simp add: stop_fields)
  then have "consistent (fst (stop (with_framerate fps this) h), snd (stop (with_framerate fps this) h))"
    by simp
  then show "sources (snd (stop (with_framerate fps this) h)) = []"
    by (rule sources_stopped) (simp add: stop_fields)
qed

lemma stop_sources_interpolation:
  assumes "consistent (this, h)"
  shows "consistent (stop (this\<lparr>interpolation := b\<rparr>) h)"
    and "sources (snd (stop (this\<lparr>interpolation := b\<rparr>) h)) = []"
proof -
  have c: "consistent (stop this h)" using assms by (rule consistent_stop)
  then have "consistent (fst (stop this h), snd (stop this h))" by simp
  then show 1: "consistent (stop (this\<lparr>interpolation := b\<rparr>) h)"
    unfolding stop_interpolation
    by (rule consistent_stopped_interpolation) (simp add: stop_fields)
  then have "consistent (fst (stop (this\<lparr>interpolation := b\<rparr>) h), snd (stop (this\<lparr>interpolation := b\<rparr>) h))"
    by simp
  then show "sources (snd (stop (this\<lparr>interpolation := b\<rparr>) h)) = []"
    by (rule sources_stopped) (simp add: stop_fields)
qed

lemma setFramerate_fields:
  "framerate (fst (setFramerate fps this h)) = fps"
  "currentStepTime (runtime (fst (setFramerate fps this h))) =
     (if is_zero fps then thousand_over (Fin 60) else thousand_over fps)"
  "running (fst (setFramerate fps this h)) = running this"
  "interpolation (fst (setFramerate fps this h)) = interpolation this"
  "stepCallback (fst (setFramerate fps this h)) = stepCallback this"
  "interpolationCallback (fst (setFramerate fps this h)) = interpolationCallback this"
  by (simp_all add: setFramerate_eq start_fields stop_fields with_framerate_fields)

lemma setInterpolation_fields:
  "framerate (fst (setInterpolation b this h)) = framerate this"
  "runtime (fst (setInterpolation b this h)) = runtime this"
  "running (fst (setInterpolation b this h)) = running this"
  "interpolation (fst (setInterpolation b this h)) = b"
  "stepCallback (fst (setInterpolation b this h)) = stepCallback this"
  "interpolationCallback (fst (setInterpolation b this h)) = interpolationCallback this"
  by (simp_all add: setInterpolation_eq start_fields stop_fields)

lemma mode_table_setFramerate:
  "mode_table (fst (setFramerate fps this h)) = mode_table (with_framerate fps this)"
  by (simp add: mode_table_def setFramerate_fields with_framerate_fields)

text \<open>
  C3. setFramerate(rate) stores the rate and recomputes the tick interval. When the
  frame loop is running it is stop() followed by start() on the new configuration: the
  state that stop() leaves has no live source, and afterwards the frame loop is running
  on exactly the sources of the mode table for the new rate, so the old timer or
  display-sync source is gone and the new rate is in effect (after construction and
  start(), setFramerate(30) leaves the one timer of delay 1000/30, with a new identifier).
  When it is not running the host is left as it is, and the next start() creates the
  sources of the stored rate. In particular, after construction, setFramerate(45) leaves
  the host without any source and sets the tick interval to 1000/45, and the start() that
  follows creates the periodic timer of delay 1000/45.
\<close>

theorem C3_setFramerate:
  "framerate (fst (setFramerate fps this h)) = fps \<and>
   currentStepTime (runtime (fst (setFramerate fps this h))) =
     (if is_zero fps then thousand_over (Fin 60) else thousand_over fps) \<and>
   setFramerate fps this h =
     (if running this
      then start (fst (stop (with_framerate fps this) h)) (snd (stop (with_framerate fps this) h))
      else (with_framerate fps this, h)) \<and>
   (if consistent (this, h) \<and> running this
    then running (fst (setFramerate fps this h)) \<and>
         consistent (setFramerate fps this h) \<and>
         sources (snd (stop (with_framerate fps this) h)) = [] \<and>
         sources (snd (setFramerate fps this h)) = mode_table (with_framerate fps this)
    else True) \<and>
   (if consistent (this, h) \<and> \<not> running this
    then sources (snd (setFramerate fps this h)) = [] \<and>
         sources (snd (start (fst (setFramerate fps this h)) (snd (setFramerate fps this h)))) =
           mode_table (with_framerate fps this)
    else True) \<and>
   snd (run [SetFramerate (Fin 45)] (constructor rt empty_host)) = empty_host \<and>
   currentStepTime (runtime (fst (run [SetFramerate (Fin 45)] (constructor rt empty_host)))) =
     thousand_over (Fin 45) \<and>
   sources (snd (run [SetFramerate (Fin 45), Start] (constructor rt empty_host))) =
     [PeriodicTimer (thousand_over (Fin 45)) (Bound Step)] \<and>
   timers (snd (run [Start, SetFramerate (Fin 30)] (constructor rt empty_host))) =
     [(1, Bound Step, thousand_over (Fin 30))] \<and>
   sources (snd (run [Start, SetFramerate (Fin 30)] (constructor rt empty_host))) =
     [PeriodicTimer (thousand_over (Fin 30)) (Bound Step)]"
proof -
  have 1: "framerate (fst (setFramerate fps this h)) = fps"
    by (simp add: setFramerate_fields)
  have 2: "currentStepTime (runtime (fst (setFramerate fps this h))) =
     (if is_zero fps then thousand_over (Fin 60) else thousand_over fps)"
    by (simp add: setFramerate_fields)
  have 3: "setFramerate fps this h =
     (if running this
      then start (fst (stop (with_framerate fps this) h)) (snd (stop (with_framerate fps this) h))
      else (with_framerate fps this, h))"
    by (rule setFramerate_eq)
  have 4: "sources (snd (setFramerate fps this h)) = [] \<and>
         sources (snd (start (fst (setFramerate fps this h)) (snd (setFramerate fps this h)))) =
           mode_table (with_framerate fps this)"
    if c: "consistent (this, h)" and r: "\<not> running this"
  proof -
    have e: "setFramerate fps this h = (with_framerate fps this, h)"
      using r by (simp add: setFramerate_eq)
    have c': "consistent (with_framerate fps this, h)"
      using c r by (rule consistent_stopped_with_framerate)
    have r': "\<not> running (with_framerate fps this)"
      using r by (simp add: with_framerate_fields)
    have "consistent (start (with_framerate fps this) h)"
      using c' r' by (rule consistent_start)
    then have "sources (snd (start (with_framerate fps this) h)) =
        mode_table (fst (start (with_framerate fps this) h))"
      by (intro sources_running) (simp_all add: start_fields)
    with sources_stopped [OF c r] e show ?thesis
      by (simp add: mode_table_start)
  qed
  have 8: "running (fst (setFramerate fps this h)) \<and>
         consistent (setFramerate fps this h) \<and>
         sources (snd (stop (with_framerate fps this) h)) = [] \<and>
         sources (snd (setFramerate fps this h)) = mode_table (with_framerate fps this)"
    if c: "consistent (this, h)" and r: "running this"
  proof -
    have a: "running (fst (setFramerate fps this h))"
      using r by (simp add: setFramerate_fields)
    have b: "consistent (setFramerate fps this h)"
      using c by (rule consistent_setFramerate)
    then have "consistent (fst (setFramerate fps this h), snd (setFramerate fps this h))"
      by simp
    then have "sources (snd (setFramerate fps this h)) = mode_table (fst (setFramerate fps this h))"
      using a by (rule sources_running)
    then have d: "sources (snd (setFramerate fps this h)) = mode_table (with_framerate fps this)"
      by (simp only: mode_table_setFramerate)
    have "sources (snd (stop (with_framerate fps this) h)) = []"
      using c by (rule stop_sources_with_framerate)
    with a b d show ?thesis by (simp only: simp_thms)
  qed
  have 5: "snd (run [SetFramerate (Fin 45)] (constructor rt empty_host)) = empty_host"
    by (simp add: run_def constructor_result setFramerate_eq)
  have 6: "currentStepTime (runtime (fst (run [SetFramerate (Fin 45)] (constructor rt empty_host)))) =
     thousand_over (Fin 45)"
    by (simp add: run_def constructor_result setFramerate_fields)
  have 7: "sources (snd (run [SetFramerate (Fin 45), Start] (constructor rt empty_host))) =
     [PeriodicTimer (thousand_over (Fin 45)) (Bound Step)]"
    by (simp add: run_def constructor_result setFramerate_eq with_framerate_def start_timer
        sources_def empty_host_def)
  have 9: "timers (snd (run [Start, SetFramerate (Fin 30)] (constructor rt empty_host))) =
     [(1, Bound Step, thousand_over (Fin 30))]"
    "sources (snd (run [Start, SetFramerate (Fin 30)] (constructor rt empty_host))) =
     [PeriodicTimer (thousand_over (Fin 30)) (Bound Step)]"
    by (simp_all add: run_Cons run_Nil constructor_result setFramerate_def setInterpolation_def
        p_restart_def start_def stop_def Let_def setInterval_def clearInterval_def
        empty_host_def sources_def)
  from 1 2 3 4 5 6 7 8 9 show ?thesis by simp
qed

theorem C3_setFramerate_witness:
  "consistent constructed \<and> \<not> running (fst constructed) \<and>
   setFramerate (Fin 45) (fst constructed) (snd constructed) =
     (with_framerate (Fin 45) (fst constructed), empty_host) \<and>
   sources (snd (start (with_framerate (Fin 45) (fst constructed)) empty_host)) =
     [PeriodicTimer (thousand_over (Fin 45)) (Bound Step)] \<and>
   consistent (run [Start] constructed) \<and> running (fst (run [Start] constructed)) \<and>
   sources (snd (run [Start] constructed)) =
     [PeriodicTimer (thousand_over (Fin 60)) (Bound Step)] \<and>
   running (fst (run [Start, SetFramerate (Fin 30)] constructed)) \<and>
   sources (snd (run [Start, SetFramerate (Fin 30)] constructed)) =
     [PeriodicTimer (thousand_over (Fin 30)) (Bound Step)] \<and>
   sources (snd (run [Start, SetFramerate (Fin 0)] constructed)) = [DisplaySync (Bound Step)]"
proof -
  have r: "\<not> running (fst constructed)" "snd constructed = empty_host"
    by (simp_all add: constructed_eq)
  have c: "consistent (fst constructed, snd constructed)"
    using consistent_constructed by simp
  have m: "mode_table (with_framerate (Fin 45) (fst constructed)) =
      [PeriodicTimer (thousand_over (Fin 45)) (Bound Step)]"
    by (simp add: mode_table_def with_framerate_def constructed_eq)
  note t = C3_setFramerate [of "Fin 45" "fst constructed" "snd constructed" example_runtime]
  from t r have e: "setFramerate (Fin 45) (fst constructed) (snd constructed) =
      (with_framerate (Fin 45) (fst constructed), empty_host)"
    by simp
  from t c r have "sources (snd (start (fst (setFramerate (Fin 45) (fst constructed) (snd constructed)))
      (snd (setFramerate (Fin 45) (fst constructed) (snd constructed))))) =
      mode_table (with_framerate (Fin 45) (fst constructed))"
    by (elim conjE) simp
  with e m r have stopped: "consistent constructed \<and> \<not> running (fst constructed) \<and>
   setFramerate (Fin 45) (fst constructed) (snd constructed) =
     (with_framerate (Fin 45) (fst constructed), empty_host) \<and>
   sources (snd (start (with_framerate (Fin 45) (fst constructed)) empty_host)) =
     [PeriodicTimer (thousand_over (Fin 45)) (Bound Step)]"
    by (simp add: consistent_constructed)
  obtain u g where s: "run [Start] constructed = (u, g)"
    by (cases "run [Start] constructed")
  have cu: "consistent (u, g)"
    unfolding s [symmetric]
    by (rule consistent_run [OF consistent_constructed]) (simp add: constructed_eq)
  have ru: "running u" "framerate u = Fin 60" "\<not> interpolation u" "stepCallback u = Bound Step"
    using s by (auto simp add: eval_simps)
  have o: "sources (snd (run [Start] constructed)) =
      [PeriodicTimer (thousand_over (Fin 60)) (Bound Step)]"
    by (simp add: eval_simps)
  have e30: "run [Start, SetFramerate (Fin 30)] constructed = setFramerate (Fin 30) u g"
    and e0: "run [Start, SetFramerate (Fin 0)] constructed = setFramerate (Fin 0) u g"
    using s by (simp_all add: run_def)
  have m30: "mode_table (with_framerate (Fin 30) u) =
      [PeriodicTimer (thousand_over (Fin 30)) (Bound Step)]"
    and m0: "mode_table (with_framerate (Fin 0) u) = [DisplaySync (Bound Step)]"
    using ru by (simp_all add: mode_table_def with_framerate_def)
  note t30 = C3_setFramerate [of "Fin 30" u g example_runtime, THEN conjunct2, THEN conjunct2, THEN conjunct2,
      THEN conjunct1]
  note t0 = C3_setFramerate [of "Fin 0" u g example_runtime, THEN conjunct2, THEN conjunct2, THEN conjunct2,
      THEN conjunct1]
  from t30 cu ru(1) have a30: "running (fst (setFramerate (Fin 30) u g))"
    "sources (snd (setFramerate (Fin 30) u g)) = mode_table (with_framerate (Fin 30) u)"
    by simp_all
  from t0 cu ru(1) have a0:
    "sources (snd (setFramerate (Fin 0) u g)) = mode_table (with_framerate (Fin 0) u)"
    by simp
  from stopped cu ru(1) o a30 a0 show ?thesis
    unfolding e30 e0 m30 [symmetric] m0 [symmetric] s by (simp only: fst_conv snd_conv simp_thms)
qed

subsection \<open>Disciplined runs from the constructor\<close>

lemma run_append: "run (es @ es') s = run es' (run es s)"
  by (simp add: run_def)

lemma disciplined_append:
  "disciplined (es @ es') s = (disciplined es s \<and> disciplined es' (run es s))"
  by (induction es arbitrary: s) (simp_all add: run_def)

lemma disciplined_take: "disciplined es s \<Longrightarrow> disciplined (take n es) s"
  using disciplined_append [of "take n es" "drop n es" s] by simp

lemma consistent_reachable:
  assumes "timers h = []" and "frames h = []" and "disciplined es (constructor rt h)"
  shows "consistent (run es (constructor rt h))"
proof -
  have "fresh h" using assms(1,2) by (simp add: fresh_def)
  then have "consistent (constructor rt h)"
    using assms(1,2) by (rule consistent_constructor)
  then show ?thesis using assms(3) by (rule consistent_run)
qed

lemma consistent_callbacks:
  "consistent (this, h) \<Longrightarrow>
   stepCallback this = Bound Step \<and> interpolationCallback this = Bound RenderInterpolatedPositions"
  by (simp add: consistent_def Let_def)

lemma mode_table_counts:
  "stepCallback this \<noteq> interpolationCallback this \<Longrightarrow>
   length (filter (\<lambda>x. callback_of x = stepCallback this) (mode_table this)) = 1 \<and>
   length (filter (\<lambda>x. callback_of x = interpolationCallback this) (mode_table this)) =
     (if \<not> is_zero (framerate this) \<and> interpolation this then 1 else 0)"
  by (auto simp add: mode_table_def)

lemma consistent_counts:
  assumes "consistent s"
  shows "length (step_sources s) = (if running (fst s) then 1 else 0)"
    and "length (interpolation_sources s) =
      (if running (fst s) \<and> \<not> is_zero (framerate (fst s)) \<and> interpolation (fst s) then 1 else 0)"
proof -
  obtain this h where s: "s = (this, h)" by (cases s)
  have cb: "stepCallback this \<noteq> interpolationCallback this"
    using assms consistent_callbacks [of this h] by (simp add: s)
  show "length (step_sources s) = (if running (fst s) then 1 else 0)"
  proof (cases "running this")
    case True
    with assms s have "sources h = mode_table this" by (simp add: sources_running)
    with True cb show ?thesis by (simp add: s step_sources_def mode_table_counts)
  next
    case False
    with assms s have "sources h = []" by (simp add: sources_stopped)
    with False show ?thesis by (simp add: s step_sources_def)
  qed
  show "length (interpolation_sources s) =
      (if running (fst s) \<and> \<not> is_zero (framerate (fst s)) \<and> interpolation (fst s) then 1 else 0)"
  proof (cases "running this")
    case True
    with assms s have "sources h = mode_table this" by (simp add: sources_running)
    with True cb show ?thesis by (simp add: s interpolation_sources_def mode_table_counts)
  next
    case False
    with assms s have "sources h = []" by (simp add: sources_stopped)
    with False show ?thesis by (simp add: s interpolation_sources_def)
  qed
qed

text \<open>
  C2. In a run that starts from the constructor and calls start() in the stopped state
  only (so every sequence of setFramerate and setInterpolation calls after one start(),
  with or without host events in between), at every point of the run at most one source
  of the step callback and at most one source of the interpolation callback are live.
  When the frame loop is running, a reconfiguration is start() applied to the state that
  stop() leaves, and that state has no live source: the new handles are created after
  the old ones are cancelled.
\<close>

theorem C2_no_double_subscription:
  assumes "timers h = []" and "frames h = []" and "disciplined es (constructor rt h)"
  shows "length (step_sources (run (take n es) (constructor rt h))) \<le> 1 \<and>
         length (interpolation_sources (run (take n es) (constructor rt h))) \<le> 1 \<and>
         (if running (fst (run (take n es) (constructor rt h))) then
            sources (snd (stop (with_framerate fps (fst (run (take n es) (constructor rt h))))
                           (snd (run (take n es) (constructor rt h))))) = [] \<and>
            setFramerate fps (fst (run (take n es) (constructor rt h)))
                (snd (run (take n es) (constructor rt h))) =
              start (fst (stop (with_framerate fps (fst (run (take n es) (constructor rt h))))
                           (snd (run (take n es) (constructor rt h)))))
                    (snd (stop (with_framerate fps (fst (run (take n es) (constructor rt h))))
                           (snd (run (take n es) (constructor rt h))))) \<and>
            sources (snd (stop ((fst (run (take n es) (constructor rt h)))\<lparr>interpolation := b\<rparr>)
                           (snd (run (take n es) (constructor rt h))))) = [] \<and>
            setInterpolation b (fst (run (take n es) (constructor rt h)))
                (snd (run (take n es) (constructor rt h))) =
              start (fst (stop ((fst (run (take n es) (constructor rt h)))\<lparr>interpolation := b\<rparr>)
                           (snd (run (take n es) (constructor rt h)))))
                    (snd (stop ((fst (run (take n es) (constructor rt h)))\<lparr>interpolation := b\<rparr>)
                           (snd (run (take n es) (constructor rt h)))))
          else True)"
proof -
  define s where "s = run (take n es) (constructor rt h)"
  have c: "consistent s"
    unfolding s_def using assms(1,2) disciplined_take [OF assms(3)]
    by (rule consistent_reachable)
  then have c': "consistent (fst s, snd s)" by simp
  have 1: "length (step_sources s) \<le> 1" "length (interpolation_sources s) \<le> 1"
    by (simp_all add: consistent_counts [OF c])
  have 2: "sources (snd (stop (with_framerate fps (fst s)) (snd s))) = []"
    using c' by (rule stop_sources_with_framerate)
  have 3: "sources (snd (stop ((fst s)\<lparr>interpolation := b\<rparr>) (snd s))) = []"
    using c' by (rule stop_sources_interpolation)
  show ?thesis
    unfolding s_def [symmetric] using 1 2 3
    by (simp add: setFramerate_eq setInterpolation_eq)
qed

theorem C2_no_double_subscription_witness:
  "disciplined [Start, SetFramerate (Fin 0), SetInterpolation True, SetFramerate (Fin 30)]
     (constructor example_runtime empty_host) \<and>
   length (step_sources
     (run [Start, SetFramerate (Fin 0), SetInterpolation True, SetFramerate (Fin 30)]
        (constructor example_runtime empty_host))) \<le> 1 \<and>
   length (interpolation_sources
     (run [Start, SetFramerate (Fin 0), SetInterpolation True, SetFramerate (Fin 30)]
        (constructor example_runtime empty_host))) \<le> 1"
proof -
  have d: "disciplined [Start, SetFramerate (Fin 0), SetInterpolation True, SetFramerate (Fin 30)]
     (constructor example_runtime empty_host)"
    by (simp add: constructor_result setFramerate_fields setInterpolation_fields start_fields)
  have e: "timers empty_host = []" "frames empty_host = []"
    by (simp_all add: empty_host_def)
  show ?thesis
    using d C2_no_double_subscription [OF e d, of 4] by simp
qed

subsection \<open>Interpolation gating\<close>

lemma ge_zero_cases: "ge_zero x \<Longrightarrow> gt_zero x = (\<not> is_zero x)"
  by (cases x) auto

lemma exec_framerate_ge_zero:
  "ge_zero (framerate (fst s)) \<Longrightarrow> rate_ok e \<Longrightarrow> ge_zero (framerate (fst (exec e s)))"
  by (cases s; cases e)
     (simp_all add: setFramerate_fields setInterpolation_fields start_fields stop_fields)

lemma run_framerate_ge_zero:
  "ge_zero (framerate (fst s)) \<Longrightarrow> list_all rate_ok es \<Longrightarrow>
   ge_zero (framerate (fst (run es s)))"
  by (induction es arbitrary: s) (simp_all add: run_def exec_framerate_ge_zero)

lemma start_sources:
  assumes "consistent (this, h)" and "\<not> running this"
  shows "sources (snd (start this h)) = mode_table this"
proof -
  have "consistent (start this h)" using assms by (rule consistent_start)
  then have "sources (snd (start this h)) = mode_table (fst (start this h))"
    by (intro sources_running) (simp_all add: start_fields)
  then show ?thesis by (simp add: mode_table_start)
qed

text \<open>
  C5, as the code has it. In every state of a run from the constructor in which start()
  is called in the stopped state only and the rates are not negative, a source of the
  interpolation callback is live exactly when the frame loop is running, the framerate is
  positive and interpolation is enabled. At framerate 0 a start() from the stopped state
  creates no interpolation source, whatever the flag; setInterpolation stores the flag
  and setFramerate keeps it, so a running frame loop at framerate 0 with the flag set
  has an interpolation source as soon as a positive rate is set.
\<close>

theorem C5_interpolation_gating:
  assumes "timers h = []" and "frames h = []"
    and "disciplined es (constructor rt h)" and "list_all rate_ok es"
  shows "(interpolation_sources (run es (constructor rt h)) \<noteq> [] \<longleftrightarrow>
            running (fst (run es (constructor rt h))) \<and>
            gt_zero (framerate (fst (run es (constructor rt h)))) \<and>
            interpolation (fst (run es (constructor rt h)))) \<and>
         (if \<not> running (fst (run es (constructor rt h))) \<and>
             is_zero (framerate (fst (run es (constructor rt h))))
          then sources (snd (run (es @ [Start]) (constructor rt h))) = [DisplaySync (Bound Step)]
          else True) \<and>
         interpolation (fst (run (es @ [SetInterpolation b]) (constructor rt h))) = b \<and>
         interpolation (fst (run (es @ [SetInterpolation b, SetFramerate fps]) (constructor rt h))) = b \<and>
         (if running (fst (run es (constructor rt h))) \<and> gt_zero fps
          then interpolation_sources
                 (run (es @ [SetFramerate (Fin 0), SetInterpolation True, SetFramerate fps])
                    (constructor rt h)) \<noteq> []
          else True)"
proof -
  define s0 where "s0 = constructor rt h"
  define s where "s = run es s0"
  have g0: "ge_zero (framerate (fst s0))"
    by (simp add: s0_def constructor_result)
  have d: "disciplined es s0" using assms(3) by (simp add: s0_def)
  have c: "consistent s"
    unfolding s_def s0_def using assms(1,2,3) by (rule consistent_reachable)
  have g: "ge_zero (framerate (fst s))"
    unfolding s_def using g0 assms(4) by (rule run_framerate_ge_zero)
  have 1: "interpolation_sources s \<noteq> [] \<longleftrightarrow>
      running (fst s) \<and> gt_zero (framerate (fst s)) \<and> interpolation (fst s)"
    using consistent_counts(2) [OF c] ge_zero_cases [OF g]
    by (auto split: if_splits)
  have 2: "sources (snd (run (es @ [Start]) s0)) = [DisplaySync (Bound Step)]"
    if "\<not> running (fst s)" "is_zero (framerate (fst s))"
  proof -
    have "consistent (fst s, snd s)" using c by simp
    from start_sources [OF this that(1)] that(2) consistent_callbacks [OF this] show ?thesis
      by (cases s) (simp add: run_append s_def [symmetric] run_Cons run_Nil mode_table_def)
  qed
  have 3: "interpolation (fst (run (es @ [SetInterpolation b]) s0)) = b"
    by (cases s) (simp add: run_append s_def [symmetric] run_Cons run_Nil setInterpolation_fields)
  have 4: "interpolation (fst (run (es @ [SetInterpolation b, SetFramerate fps]) s0)) = b"
    by (cases s; cases "setInterpolation b (fst s) (snd s)")
       (use setInterpolation_fields(4) [of b "fst s" "snd s"] in
         \<open>simp add: run_append s_def [symmetric] run_Cons run_Nil setFramerate_fields\<close>)
  have 5: "interpolation_sources
        (run (es @ [SetFramerate (Fin 0), SetInterpolation True, SetFramerate fps]) s0) \<noteq> []"
    if r: "running (fst s)" and p: "gt_zero fps"
  proof -
    let ?es = "es @ [SetFramerate (Fin 0), SetInterpolation True, SetFramerate fps]"
    define s' where "s' = run ?es s0"
    have e: "s' = exec (SetFramerate fps) (exec (SetInterpolation True) (exec (SetFramerate (Fin 0)) s))"
      by (simp add: s'_def run_append s_def [symmetric] run_Cons run_Nil)
    have d': "disciplined ?es s0"
      using d by (simp add: disciplined_append)
    have c': "consistent s'"
      unfolding s'_def s0_def using assms(1,2) d' [unfolded s0_def] by (rule consistent_reachable)
    have f: "running (fst s')" "framerate (fst s') = fps" "interpolation (fst s')"
      unfolding e using r
      by (cases s; cases "setFramerate (Fin 0) (fst s) (snd s)";
          cases "setInterpolation True (fst (setFramerate (Fin 0) (fst s) (snd s)))
             (snd (setFramerate (Fin 0) (fst s) (snd s)))";
          use setFramerate_fields [of "Fin 0" "fst s" "snd s"]
            setInterpolation_fields [of True "fst (setFramerate (Fin 0) (fst s) (snd s))"
               "snd (setFramerate (Fin 0) (fst s) (snd s))"] in
          \<open>simp add: setFramerate_fields\<close>)+
    have "\<not> is_zero fps" using p by (cases fps) auto
    with consistent_counts(2) [OF c'] f show ?thesis
      by (auto simp add: s'_def)
  qed
  show ?thesis
    unfolding s0_def [symmetric] s_def [symmetric] using 1 2 3 4 5 by simp
qed

theorem C5_interpolation_gating_witness:
  "disciplined [SetInterpolation True, Start, SetFramerate (Fin 30)]
     (constructor example_runtime empty_host) \<and>
   list_all rate_ok [SetInterpolation True, Start, SetFramerate (Fin 30)] \<and>
   interpolation_sources
     (run [SetInterpolation True, Start, SetFramerate (Fin 30)]
        (constructor example_runtime empty_host)) \<noteq> []"
proof -
  let ?es = "[SetInterpolation True, Start, SetFramerate (Fin 30)]"
  let ?s0 = "constructor example_runtime empty_host"
  have d: "disciplined ?es ?s0"
    by (simp add: constructor_result setFramerate_fields setInterpolation_fields start_fields)
  have r: "list_all rate_ok ?es" by simp
  have e: "timers empty_host = []" "frames empty_host = []"
    by (simp_all add: empty_host_def)
  have f: "running (fst (run ?es ?s0))" "framerate (fst (run ?es ?s0)) = Fin 30"
    "interpolation (fst (run ?es ?s0))"
    by (simp_all add: eval_simps constructor_result)
  show ?thesis
    using d r f C5_interpolation_gating [OF e d r] by simp
qed

text \<open>
  C5, as the specification states it, fails in a state reached through a start() while running:
  after setInterpolation(true), start(), start(), stop() the frame loop is stopped and the
  interpolation source of the first start() is still live.
\<close>

theorem C5_counterexample:
  "\<not> (interpolation_sources (run [SetInterpolation True, Start, Start, Stop] constructed) \<noteq> [] \<longleftrightarrow>
        running (fst (run [SetInterpolation True, Start, Start, Stop] constructed)) \<and>
        gt_zero (framerate (fst (run [SetInterpolation True, Start, Start, Stop] constructed))) \<and>
        interpolation (fst (run [SetInterpolation True, Start, Start, Stop] constructed)))"
proof -
  have "run [SetInterpolation True, Start, Start, Stop] constructed =
    (\<lparr>runtime = \<lparr>currentStepTime = thousand_over (Fin 60)\<rparr>, running = False,
      framerate = Fin 60, interpolation = True,
      stepCallback = Bound Step, interpolationCallback = Bound RenderInterpolatedPositions,
      p_stepInterval = Some 1, p_interpolationAnimation = None, p_stepAnimation = None\<rparr>,
     \<lparr>timers = [(0, Bound Step, thousand_over (Fin 60))], next_timer = 2,
      frames = [(0, 0)], next_frame = 2,
      closures = (\<lambda>w. None)(0 := Some (0, Bound RenderInterpolatedPositions),
                                1 := Some (1, Bound RenderInterpolatedPositions)),
      next_closure = 2, calls = []\<rparr>)"
    by (simp add: eval_simps)
  then show ?thesis
    by (simp add: interpolation_sources_def sources_def)
qed

subsection \<open>Callback identity\<close>

lemma exec_callbacks:
  "stepCallback (fst (exec e s)) = stepCallback (fst s) \<and>
   interpolationCallback (fst (exec e s)) = interpolationCallback (fst s)"
  by (cases s; cases e)
     (simp_all add: setFramerate_fields setInterpolation_fields start_fields stop_fields)

lemma run_callbacks:
  "stepCallback (fst (run es s)) = stepCallback (fst s) \<and>
   interpolationCallback (fst (run es s)) = interpolationCallback (fst s)"
  by (induction es arbitrary: s) (simp_all add: run_def exec_callbacks)

text \<open>
  C9. No call and no host event changes the two callback fields: in every run they are the
  function objects bound by the constructor. A setFramerate or setInterpolation while
  running leaves the frame loop running on the sources of the mode table for the new
  configuration, and every one of these sources calls one of the two callbacks the
  frame loop had before the call; only the kind of source and the delay change.
\<close>

theorem C9_restart_preserves_callbacks:
  assumes "consistent (this, h)" and "running this"
    and "e = SetFramerate fps \<or> e = SetInterpolation b"
  shows "stepCallback (fst (run es (constructor rt g))) = Bound Step \<and>
         interpolationCallback (fst (run es (constructor rt g))) = Bound RenderInterpolatedPositions \<and>
         stepCallback (fst (exec e (this, h))) = stepCallback this \<and>
         interpolationCallback (fst (exec e (this, h))) = interpolationCallback this \<and>
         running (fst (exec e (this, h))) \<and>
         sources (snd (exec e (this, h))) = mode_table (fst (exec e (this, h))) \<and>
         list_all (\<lambda>x. callback_of x = stepCallback this \<or> callback_of x = interpolationCallback this)
           (sources (snd (exec e (this, h))))"
proof -
  have 1: "stepCallback (fst (run es (constructor rt g))) = Bound Step \<and>
         interpolationCallback (fst (run es (constructor rt g))) = Bound RenderInterpolatedPositions"
    by (simp add: run_callbacks constructor_result)
  have 2: "stepCallback (fst (exec e (this, h))) = stepCallback this"
    "interpolationCallback (fst (exec e (this, h))) = interpolationCallback this"
    by (simp_all add: exec_callbacks)
  have 3: "running (fst (exec e (this, h)))"
    using assms(2,3) by (auto simp add: setFramerate_fields setInterpolation_fields)
  have "ok e (this, h)" using assms(3) by auto
  with assms(1) have "consistent (exec e (this, h))" by (rule consistent_exec)
  then have "consistent (fst (exec e (this, h)), snd (exec e (this, h)))" by simp
  then have 4: "sources (snd (exec e (this, h))) = mode_table (fst (exec e (this, h)))"
    using 3 by (rule sources_running)
  have 5: "list_all (\<lambda>x. callback_of x = stepCallback this \<or> callback_of x = interpolationCallback this)
           (mode_table (fst (exec e (this, h))))"
    by (simp add: mode_table_def 2)
  from 1 2 3 4 5 show ?thesis by simp
qed

theorem C9_restart_preserves_callbacks_witness:
  "consistent (run [Start] constructed) \<and> running (fst (run [Start] constructed)) \<and>
   stepCallback (fst (run [Start, SetFramerate (Fin 0)] constructed)) = Bound Step \<and>
   sources (snd (run [Start] constructed)) = [PeriodicTimer (thousand_over (Fin 60)) (Bound Step)] \<and>
   sources (snd (run [Start, SetFramerate (Fin 0)] constructed)) = [DisplaySync (Bound Step)]"
proof -
  obtain t h where s: "run [Start] constructed = (t, h)"
    by (cases "run [Start] constructed")
  have c: "consistent (t, h)"
    unfolding s [symmetric] by (rule consistent_run [OF consistent_constructed]) (simp add: constructed_eq)
  have r: "running t" "stepCallback t = Bound Step"
    using s by (auto simp add: eval_simps)
  have e: "run [Start, SetFramerate (Fin 0)] constructed = exec (SetFramerate (Fin 0)) (t, h)"
    using s by (simp add: run_def)
  have m: "mode_table (fst (exec (SetFramerate (Fin 0)) (t, h))) = [DisplaySync (Bound Step)]"
    using r by (simp add: mode_table_def setFramerate_fields)
  have o: "sources (snd (run [Start] constructed)) = [PeriodicTimer (thousand_over (Fin 60)) (Bound Step)]"
    by (simp add: eval_simps)
  from C9_restart_preserves_callbacks [OF c r(1), of "SetFramerate (Fin 0)" "Fin 0"]
  show ?thesis
    unfolding e using c r m o s by simp
qed

subsection \<open>start() while running\<close>

lemma running_cases:
  assumes "consistent (this, h)" and "running this"
  obtains
    (zero) r w where "is_zero (framerate this)" "timers h = []" "frames h = [(r, w)]"
      "closures h w = Some (r, Bound Step)" "p_stepAnimation this = Some w"
      "p_interpolationAnimation this = None" "r < next_frame h" "w < next_closure h"
  | (timer) i where "\<not> is_zero (framerate this)" "\<not> interpolation this"
      "timers h = [(i, Bound Step, thousand_over (framerate this))]" "frames h = []"
      "p_stepInterval this = Some i" "p_stepAnimation this = None"
      "p_interpolationAnimation this = None" "i < next_timer h"
  | (interpolated) i r w where "\<not> is_zero (framerate this)" "interpolation this"
      "timers h = [(i, Bound Step, thousand_over (framerate this))]" "frames h = [(r, w)]"
      "closures h w = Some (r, Bound RenderInterpolatedPositions)"
      "p_stepInterval this = Some i" "p_stepAnimation this = None"
      "p_interpolationAnimation this = Some w" "i < next_timer h" "r < next_frame h"
      "w < next_closure h"
  using assms
  by (cases "is_zero (framerate this)"; cases "interpolation this")
     (auto simp add: consistent_def fresh_def Let_def split: option.splits)

lemma clearInterval_no_timers: "timers h = [] \<Longrightarrow> clearInterval x h = h"
  by (cases x) (simp_all add: clearInterval_def)

text \<open>
  C7. start() has no guard: called while running (in any state a disciplined run has
  reached) it leaves a second source of the step callback beside the first, and the field
  that held the first one's handle now holds the second's. The stop() that follows
  cancels the second only: the frame loop is stopped, the first is still live, its handle
  is in no field, and a further stop() changes nothing.
\<close>

theorem C7_start_while_running:
  assumes "consistent (this, h)" and "running this"
  shows "length (step_sources (this, h)) = 1 \<and>
         length (step_sources (start this h)) = 2 \<and>
         (if is_zero (framerate this)
          then p_stepAnimation this \<noteq> None \<and>
               p_stepAnimation (fst (start this h)) \<noteq> None \<and>
               p_stepAnimation (fst (start this h)) \<noteq> p_stepAnimation this
          else p_stepInterval this \<noteq> None \<and>
               p_stepInterval (fst (start this h)) \<noteq> None \<and>
               p_stepInterval (fst (start this h)) \<noteq> p_stepInterval this) \<and>
         \<not> running (fst (run [Start, Stop] (this, h))) \<and>
         step_sources (run [Start, Stop] (this, h)) = step_sources (this, h) \<and>
         (if is_zero (framerate this)
          then p_stepAnimation (fst (run [Start, Stop] (this, h))) \<noteq> p_stepAnimation this
          else p_stepInterval (fst (run [Start, Stop] (this, h))) \<noteq> p_stepInterval this) \<and>
         run [Start, Stop, Stop] (this, h) = run [Start, Stop] (this, h)"
proof -
  note cb = consistent_callbacks [OF assms(1)]
  from assms show ?thesis
  proof (cases rule: running_cases)
    case (zero r w)
    with cb show ?thesis
      by (simp add: run_Cons run_Nil start_zero step_sources_def sources_def stop_def
          clearInterval_no_timers cancel_def p_cancelAnimationFrame_def Let_def)
  next
    case (timer i)
    with cb show ?thesis
      by (simp add: run_Cons run_Nil start_timer step_sources_def sources_def stop_def
          clearInterval_def cancel_def p_cancelAnimationFrame_def Let_def)
  next
    case (interpolated i r w)
    with cb show ?thesis
      by (simp add: run_Cons run_Nil start_interpolated step_sources_def sources_def stop_def
          clearInterval_def cancel_def p_cancelAnimationFrame_def Let_def)
  qed
qed

theorem C7_start_while_running_witness:
  "consistent (run [Start] constructed) \<and> running (fst (run [Start] constructed)) \<and>
   length (step_sources (run [Start, Start] constructed)) = 2 \<and>
   \<not> running (fst (run [Start, Start, Stop] constructed)) \<and>
   length (step_sources (run [Start, Start, Stop] constructed)) = 1"
proof -
  obtain t h where s: "run [Start] constructed = (t, h)"
    by (cases "run [Start] constructed")
  have c: "consistent (t, h)"
    unfolding s [symmetric] by (rule consistent_run [OF consistent_constructed]) (simp add: constructed_eq)
  have r: "running t"
    using s by (auto simp add: eval_simps)
  have e: "run [Start, Start] constructed = start t h"
    "run [Start, Start, Stop] constructed = run [Start, Stop] (t, h)"
    using s by (simp_all add: run_def)
  from C7_start_while_running [OF c r] show ?thesis
    unfolding e using c r s by simp
qed

subsection \<open>stop()\<close>

lemma stop_idempotent: "stop (fst (stop this h)) (snd (stop this h)) = stop this h"
  by (cases "p_stepInterval this"; cases "p_interpolationAnimation this";
      cases "p_stepAnimation this")
     (auto simp add: stop_def clearInterval_def cancel_def p_cancelAnimationFrame_def Let_def
        split: option.splits)

lemma stop_after_constructor: "stop (fst (constructor rt h)) (snd (constructor rt h)) = constructor rt h"
  by (simp add: constructor_result stop_def clearInterval_def)

text \<open>
  C4. After stop() the frame loop is not running, no source is live, and the fields
  \<^verbatim>\<open>_interpolationAnimation\<close> and \<^verbatim>\<open>_stepAnimation\<close> are null; a second stop() changes
  nothing, and neither does a stop() right after construction. The field
  \<^verbatim>\<open>_stepInterval\<close> is not cleared: after construction, start() and stop() it still
  holds the identifier of the cancelled timer, where the specification has every handle
  field cleared.
\<close>

theorem C4_stop_keeps_stepInterval:
  "p_stepInterval (fst (run [Start, Stop] (constructor rt empty_host))) = Some 0 \<and>
   p_stepInterval (fst (run [Start, Stop] (constructor rt empty_host))) \<noteq> None \<and>
   \<not> running (fst (run [Start, Stop] (constructor rt empty_host))) \<and>
   p_interpolationAnimation (fst (run [Start, Stop] (constructor rt empty_host))) = None \<and>
   p_stepAnimation (fst (run [Start, Stop] (constructor rt empty_host))) = None \<and>
   sources (snd (run [Start, Stop] (constructor rt empty_host))) = []"
  by (simp add: eval_simps constructor_result)

subsection \<open>The display-sync adapter\<close>

lemma armedE:
  assumes "armed w cb h"
  obtains r where "closures h w = Some (r, cb)" "pending w h = [r]"
  using assms by (auto simp add: armed_def split: option.splits)

lemma wrapper_armed:
  assumes "fresh h"
  shows "fst (animationFrameWrapper cb h) = next_closure h"
    and "fresh (snd (animationFrameWrapper cb h))"
    and "armed (next_closure h) cb (snd (animationFrameWrapper cb h))"
    and "calls (snd (animationFrameWrapper cb h)) = calls h"
proof -
  have "filter (\<lambda>f. snd f = next_closure h) (frames h) = []"
    using assms by (auto simp add: fresh_def list_all_iff filter_empty_conv)
  then show "armed (next_closure h) cb (snd (animationFrameWrapper cb h))"
    by (simp add: animationFrameWrapper_def p_requestAnimationFrame_def armed_def pending_def
        Let_def)
  show "fresh (snd (animationFrameWrapper cb h))"
    using assms
    by (auto simp add: animationFrameWrapper_def p_requestAnimationFrame_def fresh_def
        list_all_iff Let_def)
qed (simp_all add: animationFrameWrapper_def p_requestAnimationFrame_def Let_def)

lemma map_of_pending:
  assumes "fresh h" and "r \<in> set (pending w h)"
  shows "map_of (frames h) r = Some w"
proof -
  have "(r, w) \<in> set (frames h)" using assms(2) by (auto simp add: pending_def)
  moreover have "distinct (map fst (frames h))" using assms(1) by (simp add: fresh_def)
  ultimately show ?thesis by simp
qed

lemma pending_remove_other:
  assumes "fresh h" and "map_of (frames h) r = Some w'" and "w' \<noteq> w"
  shows "map fst (filter (\<lambda>f. snd f = w) (filter (\<lambda>f. fst f \<noteq> r) (frames h))) = pending w h"
proof -
  have d: "distinct (map fst (frames h))" using assms(1) by (simp add: fresh_def)
  have *: "fst f \<noteq> r" if f: "f \<in> set (frames h)" "snd f = w" for f
  proof
    assume "fst f = r"
    with f have "(r, w) \<in> set (frames h)" by (cases f) auto
    with d have "map_of (frames h) r = Some w" by simp
    with assms(2,3) show False by simp
  qed
  have "filter (\<lambda>f. snd f = w) (filter (\<lambda>f. fst f \<noteq> r) (frames h)) =
        filter (\<lambda>f. snd f = w) (frames h)"
    using * by (auto intro!: filter_cong)
  then show ?thesis by (simp add: pending_def)
qed

lemma frame_own:
  assumes "fresh h" and "armed w cb h" and "pending w h = [r]"
  shows "fresh (frame r h)" and "armed w cb (frame r h)"
    and "pending w (frame r h) = [next_frame h]"
    and "invocations w (frame r h) = Suc (invocations w h)"
    and "next_frame (frame r h) = Suc (next_frame h)"
proof -
  from assms(2) obtain r' where c: "closures h w = Some (r', cb)" "pending w h = [r']"
    by (rule armedE)
  have m: "map_of (frames h) r = Some w"
    using assms(1,3) by (intro map_of_pending) simp_all
  have d: "distinct (map fst (frames h))" using assms(1) by (simp add: fresh_def)
  have e: "frame r h =
      h\<lparr>frames := filter (\<lambda>f. fst f \<noteq> r) (frames h) @ [(next_frame h, w)],
        next_frame := Suc (next_frame h),
        closures := (closures h)(w := Some (next_frame h, cb)),
        calls := calls h @ [(ByFrame w, cb)]\<rparr>"
    using m c by (simp add: frame_def handle_def p_requestAnimationFrame_def Let_def)
  have "filter (\<lambda>f. snd f = w) (filter (\<lambda>f. fst f \<noteq> r) (frames h)) = []"
  proof (rule ccontr)
    assume "filter (\<lambda>f. snd f = w) (filter (\<lambda>f. fst f \<noteq> r) (frames h)) \<noteq> []"
    then obtain f where f: "f \<in> set (frames h)" "snd f = w" "fst f \<noteq> r"
      by (auto simp add: filter_empty_conv)
    then have "fst f \<in> set (pending w h)" by (auto simp add: pending_def)
    with assms(3) f(3) show False by simp
  qed
  then show "pending w (frame r h) = [next_frame h]"
    by (simp add: e pending_def)
  then show "armed w cb (frame r h)"
    by (simp add: armed_def e)
  have w: "w < next_closure h"
    using assms(1,3) by (auto simp add: fresh_def list_all_iff pending_def Cons_eq_map_conv
        filter_eq_Cons_iff)
  show "fresh (frame r h)"
    using assms(1) w
    by (auto simp add: e fresh_def list_all_iff distinct_map_filter)
  show "invocations w (frame r h) = Suc (invocations w h)"
    by (simp add: e invocations_def)
  show "next_frame (frame r h) = Suc (next_frame h)"
    by (simp add: e)
qed

lemma frame_foreign:
  assumes "fresh h" and "r \<notin> set (pending w h)"
  shows "fresh (frame r h)" and "pending w (frame r h) = pending w h"
    and "closures (frame r h) w = closures h w"
    and "invocations w (frame r h) = invocations w h"
    and "next_frame h \<le> next_frame (frame r h)"
proof -
  have d: "distinct (map fst (frames h))" using assms(1) by (simp add: fresh_def)
  have "fresh (frame r h) \<and> pending w (frame r h) = pending w h \<and>
        closures (frame r h) w = closures h w \<and>
        invocations w (frame r h) = invocations w h \<and> next_frame h \<le> next_frame (frame r h)"
  proof (cases "map_of (frames h) r")
    case None
    then show ?thesis using assms(1) by (simp add: frame_def)
  next
    case (Some w')
    then have in_frames: "(r, w') \<in> set (frames h)" by (rule map_of_SomeD)
    have ne: "w' \<noteq> w"
    proof
      assume "w' = w"
      with in_frames have "r \<in> set (pending w h)" by (force simp add: pending_def)
      with assms(2) show False by simp
    qed
    have w': "w' < next_closure h"
      using assms(1) in_frames by (auto simp add: fresh_def list_all_iff)
    note p = pending_remove_other [OF assms(1) Some ne]
    have f: "fresh (h\<lparr>frames := filter (\<lambda>f. fst f \<noteq> r) (frames h)\<rparr>)"
      using assms(1) by (auto simp add: fresh_def list_all_iff distinct_map_filter)
    show ?thesis
    proof (cases "closures h w'")
      case None
      with Some p f show ?thesis
        by (simp add: frame_def handle_def pending_def invocations_def)
    next
      case (Some c)
      obtain i cb' where c: "c = (i, cb')" by (cases c)
      have e: "frame r h =
        h\<lparr>frames := filter (\<lambda>f. fst f \<noteq> r) (frames h) @ [(next_frame h, w')],
          next_frame := Suc (next_frame h),
          closures := (closures h)(w' := Some (next_frame h, cb')),
          calls := calls h @ [(ByFrame w', cb')]\<rparr>"
        using \<open>map_of (frames h) r = Some w'\<close> Some c
        by (simp add: frame_def handle_def p_requestAnimationFrame_def Let_def)
      have "fresh (frame r h)"
        using assms(1) w'
        by (auto simp add: e fresh_def list_all_iff distinct_map_filter)
      with p ne show ?thesis
        by (simp add: e pending_def invocations_def)
    qed
  qed
  then show "fresh (frame r h)" and "pending w (frame r h) = pending w h"
    and "closures (frame r h) w = closures h w"
    and "invocations w (frame r h) = invocations w h"
    and "next_frame h \<le> next_frame (frame r h)"
    by simp_all
qed

lemma frame_foreign_armed:
  assumes "fresh h" and "armed w cb h" and "r \<notin> set (pending w h)"
  shows "armed w cb (frame r h)"
  using assms(2) frame_foreign(2,3) [OF assms(1,3)] by (auto simp add: armed_def split: option.splits)

lemma frames_foreign:
  assumes "fresh h" and "set (pending w h) \<inter> set rs = {}"
  shows "fresh (fold frame rs h) \<and> pending w (fold frame rs h) = pending w h \<and>
         closures (fold frame rs h) w = closures h w \<and>
         invocations w (fold frame rs h) = invocations w h \<and>
         next_frame h \<le> next_frame (fold frame rs h)"
  using assms
proof (induction rs arbitrary: h)
  case Nil
  then show ?case by simp
next
  case (Cons r rs)
  from Cons.prems have n: "r \<notin> set (pending w h)" by auto
  note f = frame_foreign [OF Cons.prems(1) n]
  from Cons.prems(2) f(2) have "set (pending w (frame r h)) \<inter> set rs = {}" by auto
  from Cons.IH [OF f(1) this] f show ?case by simp
qed

lemma frames_own:
  assumes "fresh h" and "armed w cb h" and "distinct rs"
    and "\<forall>x \<in> set rs. x < next_frame h" and "set (pending w h) \<subseteq> set rs"
  shows "fresh (fold frame rs h) \<and> armed w cb (fold frame rs h) \<and>
         invocations w (fold frame rs h) = Suc (invocations w h)"
  using assms
proof (induction rs arbitrary: h)
  case Nil
  from Nil.prems(2) obtain r where "pending w h = [r]" by (rule armedE)
  with Nil.prems(5) show ?case by simp
next
  case (Cons x rs)
  from Cons.prems(2) obtain r where r: "closures h w = Some (r, cb)" "pending w h = [r]"
    by (rule armedE)
  show ?case
  proof (cases "x = r")
    case True
    note f = frame_own [OF Cons.prems(1,2) r(2)]
    have "set (pending w (frame r h)) \<inter> set rs = {}"
      using f(3) Cons.prems(4) by auto
    from frames_foreign [OF f(1) this] f(2,4) True show ?thesis
      by (auto simp add: armed_def split: option.splits)
  next
    case False
    then have n: "x \<notin> set (pending w h)" using r(2) by simp
    note f = frame_foreign [OF Cons.prems(1) n]
    have a: "armed w cb (frame x h)"
      using Cons.prems(1,2) n by (rule frame_foreign_armed)
    have "\<forall>y \<in> set rs. y < next_frame (frame x h)"
      using Cons.prems(4) f(5) by auto
    moreover have "set (pending w (frame x h)) \<subseteq> set rs"
      using Cons.prems(5) r(2) False f(2) by auto
    moreover have "distinct rs" using Cons.prems(3) by simp
    ultimately show ?thesis
      using Cons.IH [OF f(1) a] f(4) by simp
  qed
qed

lemma refresh_armed:
  assumes "fresh h" and "armed w cb h"
  shows "fresh (refresh h)" and "armed w cb (refresh h)"
    and "invocations w (refresh h) = Suc (invocations w h)"
proof -
  have "distinct (map fst (frames h))" "\<forall>x \<in> set (map fst (frames h)). x < next_frame h"
    using assms(1) by (auto simp add: fresh_def list_all_iff)
  moreover have "set (pending w h) \<subseteq> set (map fst (frames h))"
    by (auto simp add: pending_def)
  ultimately have "fresh (fold frame (map fst (frames h)) h) \<and>
      armed w cb (fold frame (map fst (frames h)) h) \<and>
      invocations w (fold frame (map fst (frames h)) h) = Suc (invocations w h)"
    using assms by (intro frames_own) simp_all
  then show "fresh (refresh h)" and "armed w cb (refresh h)"
    and "invocations w (refresh h) = Suc (invocations w h)"
    by (simp_all add: refresh_def)
qed

lemma cycles_armed:
  assumes "fresh h" and "armed w cb h"
  shows "fresh ((refresh ^^ n) h) \<and> armed w cb ((refresh ^^ n) h) \<and>
         invocations w ((refresh ^^ n) h) = invocations w h + n"
proof (induction n)
  case 0
  with assms show ?case by simp
next
  case (Suc n)
  then have f: "fresh ((refresh ^^ n) h)" and a: "armed w cb ((refresh ^^ n) h)"
    and i: "invocations w ((refresh ^^ n) h) = invocations w h + n"
    by simp_all
  from refresh_armed [OF f a] i show ?case by simp
qed

lemma cancel_armed:
  assumes "fresh h" and "armed w cb h"
  shows "fresh (cancel w h)" and "pending w (cancel w h) = []"
    and "invocations w (cancel w h) = invocations w h"
proof -
  from assms(2) obtain r where r: "closures h w = Some (r, cb)" "pending w h = [r]"
    by (rule armedE)
  have e: "cancel w h = h\<lparr>frames := filter (\<lambda>f. fst f \<noteq> r) (frames h)\<rparr>"
    using r(1) by (simp add: cancel_def p_cancelAnimationFrame_def)
  show "fresh (cancel w h)"
    using assms(1) by (auto simp add: e fresh_def list_all_iff distinct_map_filter)
  show "invocations w (cancel w h) = invocations w h"
    by (simp add: e invocations_def)
  have "filter (\<lambda>f. snd f = w) (filter (\<lambda>f. fst f \<noteq> r) (frames h)) = []"
  proof (rule ccontr)
    assume "filter (\<lambda>f. snd f = w) (filter (\<lambda>f. fst f \<noteq> r) (frames h)) \<noteq> []"
    then obtain f where f: "f \<in> set (frames h)" "snd f = w" "fst f \<noteq> r"
      by (auto simp add: filter_empty_conv)
    then have "fst f \<in> set (pending w h)" by (auto simp add: pending_def)
    with r(2) f(3) show False by simp
  qed
  then show "pending w (cancel w h) = []"
    by (simp add: e pending_def)
qed

lemma cancel_idempotent: "cancel w (cancel w h) = cancel w h"
  by (cases "closures h w") (auto simp add: cancel_def p_cancelAnimationFrame_def)

lemma cancelled_stays:
  assumes "fresh h" and "pending w h = []"
  shows "pending w (fold frame rs h) = [] \<and> invocations w (fold frame rs h) = invocations w h"
  using frames_foreign [OF assms(1), of w rs] assms(2) by simp

text \<open>
  C8. On a host whose identifiers are fresh, \<open>animationFrameWrapper cb\<close> subscribes a new
  closure \<open>w\<close>. Through any number \<open>n\<close> of refresh cycles it stays subscribed with one
  pending request, and its callback has been invoked once per cycle. Cancelling the
  returned handle removes the pending request, and no later run of any requests invokes
  the callback again. When the handle is cancelled from within the callback (the host
  runs the pending request of \<open>w\<close>, \<^verbatim>\<open>handle\<close> resubmits and invokes the callback, the
  callback cancels), that invocation is the last one: the request removed is the
  resubmitted one. Cancelling twice is cancelling once.
\<close>

theorem C8_animationFrameWrapper:
  assumes "fresh h"
  shows "armed (fst (animationFrameWrapper cb h)) cb
           ((refresh ^^ n) (snd (animationFrameWrapper cb h))) \<and>
         length (pending (fst (animationFrameWrapper cb h))
           ((refresh ^^ n) (snd (animationFrameWrapper cb h)))) = 1 \<and>
         invocations (fst (animationFrameWrapper cb h))
           ((refresh ^^ n) (snd (animationFrameWrapper cb h))) =
           invocations (fst (animationFrameWrapper cb h)) h + n \<and>
         pending (fst (animationFrameWrapper cb h))
           (cancel (fst (animationFrameWrapper cb h))
              ((refresh ^^ n) (snd (animationFrameWrapper cb h)))) = [] \<and>
         invocations (fst (animationFrameWrapper cb h))
           (fold frame rs (cancel (fst (animationFrameWrapper cb h))
              ((refresh ^^ n) (snd (animationFrameWrapper cb h))))) =
           invocations (fst (animationFrameWrapper cb h)) h + n \<and>
         pending (fst (animationFrameWrapper cb h))
           (cancel (fst (animationFrameWrapper cb h))
              (fold frame (pending (fst (animationFrameWrapper cb h))
                    ((refresh ^^ n) (snd (animationFrameWrapper cb h))))
                 ((refresh ^^ n) (snd (animationFrameWrapper cb h))))) = [] \<and>
         invocations (fst (animationFrameWrapper cb h))
           (fold frame rs (cancel (fst (animationFrameWrapper cb h))
              (fold frame (pending (fst (animationFrameWrapper cb h))
                    ((refresh ^^ n) (snd (animationFrameWrapper cb h))))
                 ((refresh ^^ n) (snd (animationFrameWrapper cb h)))))) =
           invocations (fst (animationFrameWrapper cb h)) h + n + 1 \<and>
         cancel (fst (animationFrameWrapper cb h))
           (cancel (fst (animationFrameWrapper cb h))
              ((refresh ^^ n) (snd (animationFrameWrapper cb h)))) =
         cancel (fst (animationFrameWrapper cb h))
           ((refresh ^^ n) (snd (animationFrameWrapper cb h)))"
proof -
  define w where "w = fst (animationFrameWrapper cb h)"
  define h1 where "h1 = snd (animationFrameWrapper cb h)"
  define g where "g = (refresh ^^ n) h1"
  have w: "w = next_closure h"
    by (simp add: w_def wrapper_armed(1) [OF assms])
  have h1: "fresh h1" "armed w cb h1" "invocations w h1 = invocations w h"
    using wrapper_armed(2,3,4) [OF assms, of cb] by (simp_all add: h1_def w invocations_def)
  have g: "fresh g" "armed w cb g" "invocations w g = invocations w h + n"
    using cycles_armed [OF h1(1,2), of n] h1(3) by (simp_all add: g_def)
  from g(2) obtain r where r: "closures g w = Some (r, cb)" "pending w g = [r]"
    by (rule armedE)
  note c = cancel_armed [OF g(1,2)]
  note s = cancelled_stays [OF c(1,2), of rs]
  note f = frame_own [OF g(1,2) r(2)]
  note c' = cancel_armed [OF f(1,2)]
  note s' = cancelled_stays [OF c'(1,2), of rs]
  have 1: "armed w cb g" "length (pending w g) = 1" "invocations w g = invocations w h + n"
    using g r by simp_all
  have 2: "pending w (cancel w g) = []"
    "invocations w (fold frame rs (cancel w g)) = invocations w h + n"
    using c s g(3) by simp_all
  have 3: "pending w (cancel w (fold frame (pending w g) g)) = []"
    "invocations w (fold frame rs (cancel w (fold frame (pending w g) g))) =
       invocations w h + n + 1"
    using c' s' f(4) g(3) by (simp_all add: r(2))
  have 4: "cancel w (cancel w g) = cancel w g"
    by (rule cancel_idempotent)
  show ?thesis
    unfolding w_def [symmetric] h1_def [symmetric] g_def [symmetric]
    using 1 2 3 4 by simp
qed

theorem C8_animationFrameWrapper_witness:
  "fresh empty_host \<and>
   armed 0 (Bound Step) ((refresh ^^ 2) (snd (animationFrameWrapper (Bound Step) empty_host))) \<and>
   invocations 0 ((refresh ^^ 2) (snd (animationFrameWrapper (Bound Step) empty_host))) = 2 \<and>
   pending 0 (cancel 0 ((refresh ^^ 2) (snd (animationFrameWrapper (Bound Step) empty_host)))) = []"
proof -
  have f: "fresh empty_host" by (simp add: fresh_def empty_host_def)
  have w: "fst (animationFrameWrapper (Bound Step) empty_host) = 0"
    by (simp add: animationFrameWrapper_def p_requestAnimationFrame_def empty_host_def Let_def)
  have i: "invocations 0 empty_host = 0" by (simp add: invocations_def empty_host_def)
  from C8_animationFrameWrapper [OF f, of "Bound Step" 2] show ?thesis
    unfolding w using f i by simp
qed

subsection \<open>Rounding to a double\<close>

lemma two_powi_nat: "0 \<le> n \<Longrightarrow> (2::rat) powi n = of_int (2 ^ nat n)"
  by (simp add: power_int_nonneg_exp)

lemma flog2_bounds:
  assumes "0 < q"
  shows "2 powi (flog2 q) \<le> q" and "q < 2 powi (flog2 q + 1)"
proof -
  obtain a b where ab: "quotient_of q = (a, b)" by (cases "quotient_of q")
  have b: "0 < b" using ab by (rule quotient_of_denom_pos)
  have q: "q = of_int a / of_int b" using ab by (rule quotient_of_div)
  have a: "0 < a" using assms b by (simp add: q zero_less_divide_iff)
  define d where "d = bitlen a - bitlen b"
  have la: "1 \<le> bitlen a" using a bitlen_eq_zero_iff [of a] bitlen_nonneg [of a] by linarith
  have lb: "1 \<le> bitlen b" using b bitlen_eq_zero_iff [of b] bitlen_nonneg [of b] by linarith
  have a1: "(2::rat) powi (bitlen a - 1) \<le> of_int a"
    using bitlen_bounds [OF a] la by (simp add: two_powi_nat)
  have a2: "of_int a < (2::rat) powi (bitlen a)"
    using bitlen_bounds [OF a] la by (simp add: two_powi_nat)
  have b1: "(2::rat) powi (bitlen b - 1) \<le> of_int b"
    using bitlen_bounds [OF b] lb by (simp add: two_powi_nat)
  have b2: "of_int b < (2::rat) powi (bitlen b)"
    using bitlen_bounds [OF b] lb by (simp add: two_powi_nat)
  have e: "d - 1 = bitlen a - 1 - bitlen b" "d + 1 = bitlen a - (bitlen b - 1)"
    by (simp_all add: d_def)
  have "(2::rat) powi (d - 1) = 2 powi (bitlen a - 1) / 2 powi (bitlen b)"
    unfolding e by (rule power_int_diff) simp
  also have "\<dots> < of_int a / of_int b"
    using a1 b2 b by (intro frac_less2) simp_all
  finally have lo: "2 powi (d - 1) < q" by (simp add: q)
  have "of_int a / of_int b < (2::rat) powi (bitlen a) / 2 powi (bitlen b - 1)"
    using a2 b1 a by (intro frac_less) simp_all
  also have "\<dots> = 2 powi (d + 1)"
    unfolding e by (rule power_int_diff [symmetric]) simp
  finally have hi: "q < 2 powi (d + 1)" by (simp add: q)
  have f: "flog2 q = (if 2 powi d \<le> q then d else d - 1)"
    by (simp add: flog2_def ab d_def Let_def)
  show "2 powi (flog2 q) \<le> q" using lo by (simp add: f)
  show "q < 2 powi (flog2 q + 1)" using hi by (auto simp add: f)
qed

lemma round_half_even_bounds:
  "of_int (round_half_even x) \<le> x + 1 / 2" "x - 1 / 2 \<le> of_int (round_half_even x)"
  "\<lfloor>x\<rfloor> \<le> round_half_even x"
  by (auto simp add: round_half_even_def Let_def) linarith+

lemma round_half_even_ge_even:
  assumes "even m" and "of_int m - 1 / 2 \<le> x"
  shows "m \<le> round_half_even x"
proof -
  have "of_int (m - 1) \<le> x" using assms(2) by simp
  then have f: "m - 1 \<le> \<lfloor>x\<rfloor>" by (simp add: le_floor_iff)
  show ?thesis
  proof (cases "m \<le> \<lfloor>x\<rfloor>")
    case True
    with round_half_even_bounds(3) [of x] show ?thesis by linarith
  next
    case False
    with f have e: "\<lfloor>x\<rfloor> = m - 1" by linarith
    then have "odd \<lfloor>x\<rfloor>" using assms(1) by simp
    moreover have "1 / 2 \<le> x - of_int \<lfloor>x\<rfloor>" using assms(2) e by simp
    ultimately show ?thesis
      using e by (auto simp add: round_half_even_def Let_def)
  qed
qed

lemma round_half_even_pos:
  assumes "1 / 2 < x"
  shows "1 \<le> round_half_even x"
proof (cases "1 \<le> \<lfloor>x\<rfloor>")
  case True
  with round_half_even_bounds(3) [of x] show ?thesis by linarith
next
  case False
  moreover have "0 \<le> \<lfloor>x\<rfloor>" using assms by (simp add: le_floor_iff)
  ultimately have "\<lfloor>x\<rfloor> = 0" by linarith
  with assms show ?thesis by (simp add: round_half_even_def Let_def)
qed

lemma flog2_ge:
  assumes "0 < q" and "2 powi k \<le> q"
  shows "k \<le> flog2 q"
proof (rule ccontr)
  assume "\<not> k \<le> flog2 q"
  then have "flog2 q + 1 \<le> k" by simp
  then have "(2::rat) powi (flog2 q + 1) \<le> 2 powi k"
    by (rule power_int_increasing) simp
  with flog2_bounds(2) [OF assms(1)] assms(2) show False by simp
qed

lemma flog2_less:
  assumes "0 < q" and "q < 2 powi k"
  shows "flog2 q < k"
proof (rule ccontr)
  assume "\<not> flog2 q < k"
  then have "k \<le> flog2 q" by simp
  then have "(2::rat) powi k \<le> 2 powi (flog2 q)"
    by (rule power_int_increasing) simp
  with flog2_bounds(1) [OF assms(1)] assms(2) show False by simp
qed

lemma round_pos_overflow:
  assumes "2 ^ 1024 - 2 ^ 970 \<le> x"
  shows "round_pos x = PosInf"
proof -
  define e where "e = max (flog2 x) (- 1022)"
  define u :: rat where "u = 2 powi (e - 52)"
  define n where "n = round_half_even (x / u)"
  have x0: "0 < x" using assms by simp
  have "(2::rat) powi 1023 \<le> x" using assms by simp
  with x0 have "1023 \<le> flog2 x" by (rule flog2_ge)
  then have e: "e = flog2 x" "1023 \<le> e" by (simp_all add: e_def)
  have u0: "0 < u" by (simp add: u_def)
  have "2 ^ 1024 \<le> of_int n * u"
  proof (cases "e = 1023")
    case True
    then have u: "u = 2 ^ 971" by (simp add: u_def)
    have "of_int (2 ^ 53) - 1 / 2 \<le> x / u"
      using assms by (simp add: u)
    then have "2 ^ 53 \<le> n"
      unfolding n_def by (intro round_half_even_ge_even) simp_all
    then have "(2::rat) ^ 53 \<le> of_int n"
      using of_int_le_iff [of "2 ^ 53" n, where ?'a = rat] by simp
    then have "(2::rat) ^ 53 * 2 ^ 971 \<le> of_int n * 2 ^ 971"
      by (rule mult_right_mono) simp
    then show ?thesis by (simp add: u)
  next
    case False
    with e(2) have e': "1024 \<le> e" by simp
    have p: "(2::rat) powi e = 2 ^ 52 * u"
      using power_int_add [of "2::rat" 52 "e - 52"] by (simp add: u_def)
    have "2 powi e \<le> x" using flog2_bounds(1) [OF x0] by (simp add: e(1))
    then have "2 ^ 52 \<le> x / u"
      using u0 by (simp add: p pos_le_divide_eq)
    then have "of_int (2 ^ 52) \<le> x / u" by simp
    then have "2 ^ 52 \<le> \<lfloor>x / u\<rfloor>" by (simp only: le_floor_iff)
    with round_half_even_bounds(3) [of "x / u"] have "2 ^ 52 \<le> n"
      unfolding n_def by linarith
    then have "(2::rat) ^ 52 \<le> of_int n"
      using of_int_le_iff [of "2 ^ 52" n, where ?'a = rat] by simp
    then have m: "(2::rat) ^ 52 * u \<le> of_int n * u"
      using u0 by (intro mult_right_mono) simp_all
    have "(2::rat) ^ 1024 = 2 powi 1024" by simp
    also have "\<dots> \<le> 2 powi e"
      using e' by (rule power_int_increasing) simp
    also have "\<dots> = 2 ^ 52 * u" by (rule p)
    also have "\<dots> \<le> of_int n * u" by (rule m)
    finally show ?thesis .
  qed
  then show ?thesis
    by (simp add: round_pos_def Let_def e_def [symmetric] u_def [symmetric] n_def [symmetric])
qed

lemma round_pos_finite:
  assumes "0 < x" and "x < 2 ^ 1024 - 2 ^ 970"
  shows "\<exists>v. round_pos x = Fin v \<and> 0 \<le> v \<and> v < 2 ^ 1024 \<and> (1 / 2 ^ 1075 < x \<longrightarrow> 0 < v)"
proof -
  define e where "e = max (flog2 x) (- 1022)"
  define u :: rat where "u = 2 powi (e - 52)"
  define n where "n = round_half_even (x / u)"
  have "x < 2 powi 1024" using assms(2) by simp
  with assms(1) have "flog2 x < 1024" by (rule flog2_less)
  then have e: "e \<le> 1023" "- 1022 \<le> e" by (simp_all add: e_def)
  have u0: "0 < u" by (simp add: u_def)
  have "u \<le> 2 powi 971"
    unfolding u_def using e(1) by (intro power_int_increasing) simp_all
  then have u1: "u \<le> 2 ^ 971" by simp
  have "of_int n * u \<le> (x / u + 1 / 2) * u"
    unfolding n_def using u0 round_half_even_bounds(1) [of "x / u"]
    by (intro mult_right_mono) simp_all
  also have "\<dots> = x + u / 2" using u0 by (simp add: field_simps)
  also have "\<dots> < 2 ^ 1024" using u1 assms(2) by simp
  finally have v1: "of_int n * u < 2 ^ 1024" .
  have "0 \<le> x / u" using assms(1) u0 by simp
  then have "0 \<le> \<lfloor>x / u\<rfloor>" by (simp add: le_floor_iff)
  with round_half_even_bounds(3) [of "x / u"] have n0: "0 \<le> n"
    unfolding n_def by linarith
  have v0: "0 \<le> of_int n * u" using n0 u0 by simp
  have v2: "0 < of_int n * u" if x: "1 / 2 ^ 1075 < x"
  proof -
    have "1 / 2 < x / u"
    proof (cases "- 1022 \<le> flog2 x")
      case True
      then have "e = flog2 x" by (simp add: e_def)
      then have p: "(2::rat) powi (flog2 x) = 2 ^ 52 * u"
        using power_int_add [of "2::rat" 52 "e - 52"] by (simp add: u_def)
      have l: "2 ^ 52 \<le> x / u"
        using flog2_bounds(1) [OF assms(1)] u0 by (simp add: p pos_le_divide_eq)
      have "(1::rat) / 2 < 2 ^ 52" by simp
      also have "\<dots> \<le> x / u" by (rule l)
      finally show ?thesis .
    next
      case False
      then have "e = - 1022" by (simp add: e_def)
      then have "u = 2 powi (- 1074)" by (simp add: u_def)
      then have "u = 1 / 2 ^ 1074" by (simp add: power_int_minus_divide)
      with x show ?thesis by simp
    qed
    then have "1 \<le> n" unfolding n_def by (rule round_half_even_pos)
    then show ?thesis using u0 by simp
  qed
  have "round_pos x = Fin (of_int n * u)"
    using v1
    by (simp add: round_pos_def Let_def e_def [symmetric] u_def [symmetric] n_def [symmetric])
  with v0 v1 v2 show ?thesis by blast
qed

lemma round_pos_eq:
  assumes "max (flog2 x) (- 1022) = e" and "2 powi (e - 52) = u"
    and "of_int (round_half_even (x / u)) * u = v" and "v < 2 ^ 1024"
  shows "round_pos x = Fin v"
  unfolding round_pos_def Let_def assms(1) assms(2) assms(3)
  using assms(4) by simp

lemma round_pos_min_value: "round_pos (1 / 2 ^ 1074) = Fin (1 / 2 ^ 1074)"
proof -
  define x :: rat where "x = 1 / 2 ^ 1074"
  have x0: "0 < x" by (simp add: x_def)
  have "x < 2 powi (- 1022)" by (simp add: x_def power_int_minus_divide)
  with x0 have "flog2 x < - 1022" by (rule flog2_less)
  then have e: "max (flog2 x) (- 1022) = - 1022" by simp
  have u: "(2::rat) powi (- 1022 - 52) = x" by (simp add: x_def power_int_minus_divide)
  have "x / x = 1" using x0 by simp
  then have v: "of_int (round_half_even (x / x)) * x = x"
    by (simp add: round_half_even_def)
  have l: "x < 2 ^ 1024" by (simp add: x_def)
  have "round_pos x = Fin x"
    using e u v l by (rule round_pos_eq)
  then show ?thesis unfolding x_def .
qed

lemma round64_pos: "0 < q \<Longrightarrow> round64 q = round_pos q"
  by (simp add: round64_def)

lemma thousand_over_pos: "0 < q \<Longrightarrow> thousand_over (Fin q) = round_pos (1000 / q)"
  by (simp add: round64_def)

lemma thousand_over_finite_iff:
  assumes "0 < q"
  shows "is_finite (thousand_over (Fin q)) \<longleftrightarrow> 1000 / q < 2 ^ 1024 - 2 ^ 970"
proof (cases "1000 / q < 2 ^ 1024 - 2 ^ 970")
  case True
  have "0 < 1000 / q" using assms by simp
  from round_pos_finite [OF this True] obtain v where "round_pos (1000 / q) = Fin v" by blast
  with True show ?thesis by (simp only: thousand_over_pos [OF assms] is_finite.simps)
next
  case False
  then have "2 ^ 1024 - 2 ^ 970 \<le> 1000 / q" by simp
  then have "round_pos (1000 / q) = PosInf" by (rule round_pos_overflow)
  with False show ?thesis by (simp only: thousand_over_pos [OF assms] is_finite.simps)
qed

lemma thousand_over_positive:
  assumes "0 < q" and "q < 2 ^ 1024"
  shows "gt_zero (thousand_over (Fin q))"
proof (cases "1000 / q < 2 ^ 1024 - 2 ^ 970")
  case True
  have x0: "0 < 1000 / q" using assms by simp
  have "1 / 2 ^ 1075 < 1 / (2::rat) ^ 1024" by simp
  also have "\<dots> < 1 / q" using assms by (simp add: frac_less2)
  also have "\<dots> \<le> 1000 / q" using assms by (simp add: divide_right_mono)
  finally have "1 / 2 ^ 1075 < 1000 / q" .
  with round_pos_finite [OF x0 True] obtain v where "round_pos (1000 / q) = Fin v" "0 < v"
    by blast
  then show ?thesis by (simp only: thousand_over_pos [OF assms(1)] gt_zero.simps)
next
  case False
  then have "2 ^ 1024 - 2 ^ 970 \<le> 1000 / q" by simp
  then have "round_pos (1000 / q) = PosInf" by (rule round_pos_overflow)
  then show ?thesis by (simp only: thousand_over_pos [OF assms(1)] gt_zero.simps)
qed

text \<open>
  C6, as the code has it. For every rate >= 0, setFramerate sets currentStepTime to
  1000/rate (the double division) when rate > 0 and to 1000/60 when rate == 0. The value
  for rate == 0 is the double 16.666666666666668. For a finite rate > 0 (a double is below
  2^1024) the value is positive, and it is finite exactly when the quotient 1000/rate is below
  2^1024 - 2^970, the point from which a double division rounds to Infinity.
\<close>

theorem C6_tick_interval:
  assumes "ge_zero fps"
  shows "currentStepTime (runtime (fst (setFramerate fps this h))) =
           (if gt_zero fps then thousand_over fps else thousand_over (Fin 60)) \<and>
         (if is_zero fps
          then currentStepTime (runtime (fst (setFramerate fps this h))) =
                 Fin (4691249611844267 / 281474976710656)
          else True) \<and>
         (if fps = Fin q \<and> 0 < q \<and> q < 2 ^ 1024
          then gt_zero (currentStepTime (runtime (fst (setFramerate fps this h)))) \<and>
               (is_finite (currentStepTime (runtime (fst (setFramerate fps this h)))) \<longleftrightarrow>
                  1000 / q < 2 ^ 1024 - 2 ^ 970)
          else True)"
proof -
  have z: "gt_zero fps = (\<not> is_zero fps)" using assms by (rule ge_zero_cases)
  have 1: "currentStepTime (runtime (fst (setFramerate fps this h))) =
           (if gt_zero fps then thousand_over fps else thousand_over (Fin 60))"
    by (simp add: setFramerate_fields z)
  have 2: "currentStepTime (runtime (fst (setFramerate fps this h))) =
                 Fin (4691249611844267 / 281474976710656)" if "is_zero fps"
    using that by (simp only: setFramerate_fields thousand_over_60 if_True)
  have 3: "gt_zero (currentStepTime (runtime (fst (setFramerate fps this h)))) \<and>
               (is_finite (currentStepTime (runtime (fst (setFramerate fps this h)))) \<longleftrightarrow>
                  1000 / q < 2 ^ 1024 - 2 ^ 970)"
    if "fps = Fin q" "0 < q" "q < 2 ^ 1024"
  proof -
    have "currentStepTime (runtime (fst (setFramerate fps this h))) = thousand_over (Fin q)"
      using that(1,2) by (simp add: setFramerate_fields)
    with thousand_over_positive [OF that(2,3)] thousand_over_finite_iff [OF that(2)]
    show ?thesis by (simp only:)
  qed
  show ?thesis
  proof (intro conjI)
    show "currentStepTime (runtime (fst (setFramerate fps this h))) =
           (if gt_zero fps then thousand_over fps else thousand_over (Fin 60))"
      by (rule 1)
    show "if is_zero fps
          then currentStepTime (runtime (fst (setFramerate fps this h))) =
                 Fin (4691249611844267 / 281474976710656)
          else True"
      using 2 by (cases "is_zero fps") (simp_all only: if_True if_False)
    show "if fps = Fin q \<and> 0 < q \<and> q < 2 ^ 1024
          then gt_zero (currentStepTime (runtime (fst (setFramerate fps this h)))) \<and>
               (is_finite (currentStepTime (runtime (fst (setFramerate fps this h)))) \<longleftrightarrow>
                  1000 / q < 2 ^ 1024 - 2 ^ 970)
          else True"
    proof (cases "fps = Fin q \<and> 0 < q \<and> q < 2 ^ 1024")
      case True
      then have "fps = Fin q" "0 < q" "q < 2 ^ 1024" by blast+
      from 3 [OF this] True show ?thesis by (simp only: if_True simp_thms)
    next
      case False
      then show ?thesis by (simp only: if_False)
    qed
  qed
qed

theorem C6_tick_interval_witness:
  "ge_zero (Fin 45) \<and> (0::rat) < 45 \<and> (45::rat) < 2 ^ 1024 \<and>
   currentStepTime (runtime (fst (setFramerate (Fin 45) (fst constructed) (snd constructed)))) =
     thousand_over (Fin 45) \<and>
   gt_zero (currentStepTime (runtime (fst (setFramerate (Fin 45) (fst constructed) (snd constructed))))) \<and>
   is_finite (currentStepTime (runtime (fst (setFramerate (Fin 45) (fst constructed) (snd constructed)))))"
proof -
  have g: "ge_zero (Fin 45)" by simp
  have q: "(0::rat) < 45" "(45::rat) < 2 ^ 1024" "(1000::rat) / 45 < 2 ^ 1024 - 2 ^ 970"
    by simp_all
  note t = C6_tick_interval [OF g, of "fst constructed" "snd constructed" 45]
  note t1 = t [THEN conjunct1] and t3 = t [THEN conjunct2, THEN conjunct2]
  from t1 have a: "currentStepTime (runtime (fst (setFramerate (Fin 45) (fst constructed) (snd constructed)))) =
      thousand_over (Fin 45)"
    by simp
  from t3 q have b: "gt_zero (currentStepTime (runtime (fst (setFramerate (Fin 45) (fst constructed) (snd constructed)))))"
    "is_finite (currentStepTime (runtime (fst (setFramerate (Fin 45) (fst constructed) (snd constructed)))))"
    by simp_all
  from a b g q(1,2) show ?thesis by (simp only: simp_thms)
qed

text \<open>
  C6, as the specification states it, fails at the smallest positive double, 2^-1074 (Number.MIN_VALUE,
  5e-324): the rate is finite and >= 0, and currentStepTime becomes Infinity.
\<close>

theorem C6_counterexample:
  "ge_zero (Fin (1 / 2 ^ 1074)) \<and> is_finite (Fin (1 / 2 ^ 1074)) \<and>
   round64 (1 / 2 ^ 1074) = Fin (1 / 2 ^ 1074) \<and>
   currentStepTime (runtime (fst (setFramerate (Fin (1 / 2 ^ 1074)) (fst constructed) (snd constructed)))) =
     PosInf \<and>
   \<not> is_finite (currentStepTime (runtime (fst (setFramerate (Fin (1 / 2 ^ 1074)) (fst constructed) (snd constructed)))))"
proof -
  have "(0::rat) < 1 / 2 ^ 1074" by simp
  then have "round64 (1 / 2 ^ 1074) = round_pos (1 / 2 ^ 1074)" by (rule round64_pos)
  also have "\<dots> = Fin (1 / 2 ^ 1074)" by (rule round_pos_min_value)
  finally have 1: "round64 (1 / 2 ^ 1074) = Fin (1 / 2 ^ 1074)" .
  have "(2::rat) ^ 1024 - 2 ^ 970 \<le> 1000 / (1 / 2 ^ 1074)" by simp
  then have "round_pos (1000 / (1 / 2 ^ 1074)) = PosInf" by (rule round_pos_overflow)
  then have "thousand_over (Fin (1 / 2 ^ 1074)) = PosInf"
    by (simp only: thousand_over_pos [of "1 / 2 ^ 1074"] zero_less_divide_1_iff zero_less_power
        zero_less_numeral)
  then have 2: "currentStepTime (runtime (fst (setFramerate (Fin (1 / 2 ^ 1074)) (fst constructed) (snd constructed)))) =
     PosInf"
    by (simp add: setFramerate_fields)
  from 1 2 show ?thesis by simp
qed

end
